theory Spec2Isabelle
  imports Main "HOL-Library.Word"
begin

unbundle bit_operations_syntax

section \<open>TimeHarp 260 PCIe driver: data model\<close>

type_synonym u32 = "32 word"
type_synonym u64 = "64 word"

text \<open>Register offsets inside BAR 0 and the driver's constants, as the \<open>#define\<close>s give them.\<close>

definition MAX_DEVICES :: nat where "MAX_DEVICES = 4"
definition BAR_0_LEN :: u64 where "BAR_0_LEN = 65536"
definition DCR_OFFSET :: nat where "DCR_OFFSET = 0x0"
definition DCSR_OFFSET :: nat where "DCSR_OFFSET = 0x4"
definition WRITE_ADDR_OFFSET :: nat where "WRITE_ADDR_OFFSET = 0x8"
definition WRITE_SIZE_OFFSET :: nat where "WRITE_SIZE_OFFSET = 0xC"
definition WRITE_COUNT_OFFSET :: nat where "WRITE_COUNT_OFFSET = 0x10"
definition TRANS_SIZE_OFFSET :: nat where "TRANS_SIZE_OFFSET = 0x40"
definition MB_SERIAL_OFFSET :: nat where "MB_SERIAL_OFFSET = 0x140"
definition BUSMASTERED_READ_DONE :: u32 where "BUSMASTERED_READ_DONE = 0x100"

text \<open>
  \<open>struct th260_cdev\<close>, one per card. Pointers are handles, \<open>NULL\<close> is \<open>None\<close>.
  The spinlock and the wait queue carry no data and are left out; what the wait
  queue delivers is an input of \<open>th260_read\<close> below.
\<close>

record th260_cdev =
  minor :: nat
  busy :: int
  pci_dev :: "nat option"
  cdev :: "nat option"
  bar0base :: "nat option"
  bar0offset :: u32
  serial :: u64
  maxtlpsize :: u32
  dmabuf :: "u64 option"
  dmabuf_order :: nat
  irq_received :: int
  dmacount :: u32
  bytes_done :: u32

text \<open>
  What the driver does to the hardware and to the kernel, in program order.
  \<open>IoWrite32 v off\<close> is \<open>iowrite32(v, bar0base + off)\<close>; \<open>IoWrite32Phys p off\<close> is
  \<open>iowrite32(virt_to_phys(p), bar0base + off)\<close>.
\<close>

datatype kevent =
    IoWrite32 u32 nat
  | IoWrite32Phys "u64 option" nat
  | CopyToUser u32
  | CdevAdd nat
  | CdevDel nat
  | SetDrvdata nat "nat option"
  | PciEnableDevice nat
  | PciDisableDevice nat
  | PciRequestRegion nat
  | PciReleaseRegion nat
  | IoRemap
  | IoUnmap "nat option"
  | GetFreePages nat
  | FreePages "u64 option" nat
  | PciSetMaster nat
  | DmaSetMask nat
  | RequestIrq nat
  | FreeIrq nat
  | DeviceCreate nat
  | DeviceDestroy nat

datatype errno = EFAULT | EINTR | EBUSY | EINVAL | EAGAIN | EACCES | ENODEV | ETIMEDOUT

section \<open>DMA trigger\<close>

text \<open>
  The loop of \<open>th260_dma_start\<close>:
  \<^verbatim>\<open>while(rest&&tlpsize>2) { tlpsize>>=1; rest = ndwords % tlpsize; tlpcount = ndwords / tlpsize; }\<close>
  on \<open>u32\<close> variables. It returns the final \<open>tlpsize\<close> and \<open>tlpcount\<close>.
\<close>

function tlp_loop :: "u32 \<Rightarrow> u32 \<Rightarrow> u32 \<Rightarrow> u32 \<Rightarrow> u32 \<times> u32" where
  "tlp_loop ndwords tlpsize tlpcount rest =
     (if rest \<noteq> 0 \<and> tlpsize > 2
      then tlp_loop ndwords (drop_bit 1 tlpsize)
             (ndwords div drop_bit 1 tlpsize) (ndwords mod drop_bit 1 tlpsize)
      else (tlpsize, tlpcount))"
  by pat_completeness auto
termination
proof (relation "measure (\<lambda>(ndwords, tlpsize, tlpcount, rest). unat tlpsize)")
  show "wf (measure (\<lambda>(ndwords, tlpsize, tlpcount, rest). unat tlpsize))"
    by simp
next
  fix ndwords tlpsize tlpcount rest :: u32
  assume "rest \<noteq> 0 \<and> 2 < tlpsize"
  then have "0 < unat tlpsize"
    by (simp add: word_less_nat_alt)
  then have "unat tlpsize div 2 < unat tlpsize"
    by simp
  then show "((ndwords, drop_bit 1 tlpsize, ndwords div drop_bit 1 tlpsize,
                ndwords mod drop_bit 1 tlpsize),
              (ndwords, tlpsize, tlpcount, rest))
             \<in> measure (\<lambda>(ndwords, tlpsize, tlpcount, rest). unat tlpsize)"
    by (simp add: drop_bit_eq_div unat_div)
qed

text \<open>
  \<open>th260_dma_start\<close>. It only writes registers; the card record is not changed.
  The first division is by \<open>maxtlpsize\<close>: a zero there is a divide trap, the value
  \<open>None\<close>. Inside the loop the divisor is at least 1, since it is halved only
  when above 2.
\<close>

definition th260_dma_start :: "th260_cdev \<Rightarrow> kevent list option" where
  "th260_dma_start pcard =
     (if maxtlpsize pcard = 0 then None
      else
        let tlpsize = maxtlpsize pcard;
            ndwords = dmacount pcard div 4;
            (tlpsize, tlpcount) =
               tlp_loop ndwords tlpsize (ndwords div tlpsize) (ndwords mod tlpsize)
        in Some ([IoWrite32 1 DCR_OFFSET, IoWrite32 0 DCR_OFFSET] @
             (if tlpcount > 0xFFFF then []
              else if dmacount pcard \<noteq> tlpsize * 4 * tlpcount then []
              else [IoWrite32Phys (dmabuf pcard) WRITE_ADDR_OFFSET,
                    IoWrite32 tlpsize WRITE_SIZE_OFFSET,
                    IoWrite32 tlpcount WRITE_COUNT_OFFSET,
                    IoWrite32 1 DCSR_OFFSET])))"

text \<open>
  The search as the specification words it, on natural numbers: starting from the
  maximum TLP size, while the remainder is nonzero and \<open>tlp > 2\<close>, halve \<open>tlp\<close>;
  the count is \<open>dwords / tlp\<close>.
\<close>

function halving_spec :: "nat \<Rightarrow> nat \<Rightarrow> nat \<times> nat" where
  "halving_spec dwords tlp =
     (if dwords mod tlp \<noteq> 0 \<and> tlp > 2 then halving_spec dwords (tlp div 2)
      else (tlp, dwords div tlp))"
  by pat_completeness auto
termination
  by (relation "measure (\<lambda>(dwords, tlp). tlp)") auto


section \<open>Interrupt handler\<close>

text \<open>
  The bookkeeping of \<open>th260_interrupt\<close> once the status bit has cleared:
  \<^verbatim>\<open>bytes_done += dmacount; dmacount = 0; irq_received = 1;\<close>
\<close>

definition th260_interrupt_done :: "th260_cdev \<Rightarrow> th260_cdev" where
  "th260_interrupt_done pcard =
     pcard\<lparr>bytes_done := bytes_done pcard + dmacount pcard, dmacount := 0, irq_received := 1\<rparr>"

text \<open>
  The loop \<^verbatim>\<open>while(dcsr & BUSMASTERED_READ_DONE) { dcsr |= 0x80; iowrite32(dcsr, DCSR);
  iowrite32(1, DCR); iowrite32(0, DCR); dcsr = ioread32(DCSR); }\<close>.
  What the status register returns is an input: \<open>reads k\<close> is the value of the
  \<open>k\<close>-th \<open>ioread32\<close> of the handler's run. The loop has no counter in the source, so
  it is a partial function: \<open>None\<close> is a run that never leaves the loop. The result
  holds the register writes and the index of the next read, so the number of
  iterations is that index minus the one the loop started with.
\<close>

partial_function (option) isr_loop ::
  "(nat \<Rightarrow> u32) \<Rightarrow> nat \<Rightarrow> u32 \<Rightarrow> kevent list \<Rightarrow> (kevent list \<times> nat) option" where
  "isr_loop reads k dcsr evs =
     (if dcsr AND BUSMASTERED_READ_DONE \<noteq> 0
      then isr_loop reads (Suc k) (reads k)
             (evs @ [IoWrite32 (dcsr OR 0x00000080) DCSR_OFFSET,
                     IoWrite32 1 DCR_OFFSET, IoWrite32 0 DCR_OFFSET])
      else Some (evs, k))"

text \<open>\<open>th260_interrupt\<close>: the flag \<open>handled\<close>, the card and the register writes.\<close>

definition th260_interrupt ::
  "(nat \<Rightarrow> u32) \<Rightarrow> th260_cdev \<Rightarrow> (bool \<times> th260_cdev \<times> kevent list) option" where
  "th260_interrupt reads pcard =
     (let dcsr = reads 0 in
      if dcsr AND BUSMASTERED_READ_DONE = 0 then Some (False, pcard, [])
      else (case isr_loop reads 1 dcsr [] of
              None \<Rightarrow> None
            | Some (evs, k) \<Rightarrow> Some (True, th260_interrupt_done pcard, evs)))"

text \<open>A status register whose completion bit never clears, and one that clears at read \<open>n\<close>.\<close>

definition stuck_dcsr :: "nat \<Rightarrow> u32" where
  "stuck_dcsr k = 0x100"

definition clears_at :: "nat \<Rightarrow> nat \<Rightarrow> u32" where
  "clears_at n k = (if k < n then 0x100 else 0)"

section \<open>Character device: read\<close>

text \<open>
  \<open>BUFFER_SIZE(ord)\<close> is \<open>1UL << (ord + PAGE_SHIFT)\<close>. \<open>PAGE_SHIFT\<close> is a kernel
  constant that the driver source does not define; it is the parameter \<open>pshift\<close>.
\<close>

definition BUFFER_SIZE :: "nat \<Rightarrow> nat \<Rightarrow> u64" where
  "BUFFER_SIZE pshift ord = push_bit (ord + pshift) 1"

text \<open>
  What \<open>wait_event_interruptible_timeout\<close> and the checks after it observe in one
  pass of the inner loop of \<open>th260_read\<close>:
  \<^item> \<open>WTimeout\<close>: the wait returned 0;
  \<^item> \<open>WCompleted\<close>: the interrupt handler saw the completion bit and did its
    bookkeeping before the wait returned (nonzero return);
  \<^item> \<open>WSignalled\<close>: the wait returned nonzero without the interrupt;
  \<open>sigpending\<close> is \<open>signal_pending(current)\<close> and \<open>copy_ok\<close> says that
  \<open>copy_to_user\<close> returned 0.
\<close>

datatype wait_outcome = WTimeout | WCompleted | WSignalled

record wait_obs =
  outcome :: wait_outcome
  sigpending :: bool
  copy_ok :: bool

text \<open>Start of a pass of the outer \<open>do\<close> loop: \<^verbatim>\<open>bytes_done = 0; dmacount = MIN(count, BUFFER_SIZE(dmabuf_order));\<close>\<close>

definition chunk_begin :: "nat \<Rightarrow> u64 \<Rightarrow> th260_cdev \<Rightarrow> th260_cdev" where
  "chunk_begin pshift count pcard =
     pcard\<lparr>bytes_done := 0,
            dmacount := ucast (min count (BUFFER_SIZE pshift (dmabuf_order pcard)))\<rparr>"

type_synonym read_result = "(errno + int) \<times> th260_cdev \<times> kevent list"

text \<open>
  The two nested loops of \<open>th260_read\<close>, one observation per pass of the inner
  \<open>while (pcard->dmacount)\<close>. \<open>total_bytes_read\<close> is a 32-bit \<open>int\<close>,
  read with \<open>sint\<close> on return. \<open>None\<close> is a call that does not return: the
  observations ran out while it was still waiting, \<open>th260_dma_start\<close> trapped, or
  the outer loop found \<open>dmacount = 0\<close> with \<open>count > 0\<close> and so repeats unchanged.
\<close>

fun read_loop ::
  "nat \<Rightarrow> th260_cdev \<Rightarrow> u64 \<Rightarrow> u32 \<Rightarrow> kevent list \<Rightarrow> wait_obs list \<Rightarrow> read_result option" where
  "read_loop pshift pcard count total_bytes_read evs [] = None"
| "read_loop pshift pcard count total_bytes_read evs (w # ws) =
     (let pcard1 = pcard\<lparr>irq_received := 0\<rparr> in
      case th260_dma_start pcard1 of
        None \<Rightarrow> None
      | Some dma \<Rightarrow>
          if outcome w = WTimeout then Some (Inl EINTR, pcard1, evs @ dma)
          else
            let pcard2 = (if outcome w = WCompleted then th260_interrupt_done pcard1 else pcard1) in
            if bytes_done pcard2 \<noteq> 0 \<and> \<not> copy_ok w then Some (Inl EFAULT, pcard2, evs @ dma)
            else
              let evs2 = evs @ dma @
                    (if bytes_done pcard2 \<noteq> 0 then [CopyToUser (bytes_done pcard2)] else []) in
              if sigpending w then
                (let rc = total_bytes_read + bytes_done pcard2 in
                 Some (if rc \<noteq> 0 then Inr (sint rc) else Inl EINTR, pcard2, evs2))
              else
                let brk = (irq_received pcard2 \<noteq> 0);
                    total_bytes_read' = (if brk then total_bytes_read + bytes_done pcard2 else total_bytes_read);
                    count' = (if brk then count - ucast (bytes_done pcard2) else count) in
                if \<not> brk \<and> dmacount pcard2 \<noteq> 0
                then read_loop pshift pcard2 count total_bytes_read evs2 ws
                else if count' > 0
                then (let pcard3 = chunk_begin pshift count' pcard2 in
                      if dmacount pcard3 = 0 then None
                      else read_loop pshift pcard3 count' total_bytes_read' evs2 ws)
                else Some (Inr (sint total_bytes_read'), pcard2, evs2))"

text \<open>
  \<open>th260_read\<close>. \<open>nonblock\<close> is \<open>file->f_flags & O_NONBLOCK\<close> being nonzero,
  \<open>access_ok\<close> the result of the \<open>access_ok\<close> check on the caller's buffer.
\<close>

definition th260_read ::
  "nat \<Rightarrow> th260_cdev \<Rightarrow> bool \<Rightarrow> bool \<Rightarrow> u64 \<Rightarrow> wait_obs list \<Rightarrow> read_result option" where
  "th260_read pshift pcard nonblock access_ok count ws =
     (if count = 0 then Some (Inr 0, pcard, [])
      else if nonblock then Some (Inl EFAULT, pcard, [])
      else if \<not> access_ok then Some (Inl EFAULT, pcard, [])
      else
        let pcard1 = chunk_begin pshift count pcard in
        if dmacount pcard1 = 0 then None
        else read_loop pshift pcard1 count 0 [] ws)"


text \<open>The number of bytes handed to the caller by the \<open>copy_to_user\<close> calls in a trace.\<close>

fun copied_bytes :: "kevent list \<Rightarrow> nat" where
  "copied_bytes [] = 0"
| "copied_bytes (CopyToUser n # es) = unat n + copied_bytes es"
| "copied_bytes (e # es) = copied_bytes es"

section \<open>Character device: mmap\<close>

text \<open>
  The fields of \<open>struct vm_area_struct\<close> that \<open>th260_mmap\<close> reads and writes;
  \<open>vm_ops\<close> says whether \<open>th260_vm_ops\<close> (with the close hook) is installed.
\<close>

record vm_area =
  vm_start :: u64
  vm_end :: u64
  vm_pgoff :: u64
  vm_ops :: bool

text \<open>
  \<open>PAGE_SIZE\<close>, \<open>PAGE_MASK\<close> and \<open>PAGE_ALIGN\<close> are kernel macros over the
  parameter \<open>pshift\<close> (\<open>PAGE_SHIFT\<close>): \<open>PAGE_MASK = ~(PAGE_SIZE - 1)\<close> and
  \<open>PAGE_ALIGN(x) = (x + PAGE_SIZE - 1) & PAGE_MASK\<close>.
\<close>

definition PAGE_MASK :: "nat \<Rightarrow> u64" where
  "PAGE_MASK pshift = NOT (push_bit pshift 1 - 1)"

definition PAGE_ALIGN :: "nat \<Rightarrow> u64 \<Rightarrow> u64" where
  "PAGE_ALIGN pshift x = (x + (push_bit pshift 1 - 1)) AND PAGE_MASK pshift"

text \<open>
  \<open>th260_mmap\<close>. \<open>res_start\<close> is \<open>pci_resource_start(pci_dev, BAR_0)\<close> and
  \<open>remap_ret\<close> is what \<open>remap_pfn_range\<close> returns.
\<close>

definition th260_mmap ::
  "nat \<Rightarrow> u64 \<Rightarrow> int \<Rightarrow> th260_cdev \<Rightarrow> vm_area \<Rightarrow> (errno + unit) \<times> th260_cdev \<times> vm_area" where
  "th260_mmap pshift res_start remap_ret pcard vma =
     (if busy pcard \<noteq> 0 then (Inl EBUSY, pcard, vma)
      else
        let pcard1 = pcard\<lparr>busy := 1\<rparr> in
        if vm_end vma - vm_start vma > PAGE_ALIGN pshift BAR_0_LEN
        then (Inl EINVAL, pcard1\<lparr>busy := 0\<rparr>, vma)
        else
          let vma1 = vma\<lparr>vm_pgoff := res_start\<rparr>;
              pcard2 = pcard1\<lparr>bar0offset := ucast (vm_pgoff vma1 AND NOT (PAGE_MASK pshift))\<rparr>;
              vma2 = vma1\<lparr>vm_pgoff := drop_bit pshift (vm_pgoff vma1)\<rparr>
          in if remap_ret \<noteq> 0 then (Inl EAGAIN, pcard2\<lparr>busy := 0\<rparr>, vma2)
             else (Inr (), pcard2, vma2\<lparr>vm_ops := True\<rparr>))"

definition th260_vma_close :: "th260_cdev \<Rightarrow> th260_cdev" where
  "th260_vma_close pcard = pcard\<lparr>busy := 0\<rparr>"

text \<open>
  A caller's sequence of mapping calls on one card: \<open>Mmap vma remap_ret\<close> calls
  \<open>th260_mmap\<close>; \<open>Munmap\<close> tears the active mapping down, which runs the close hook.
  The kernel runs the hook only for a mapping that exists, so \<open>Munmap\<close> without an
  active mapping does nothing. The state is the card and the number of active mappings;
  the result lists what each \<open>Mmap\<close> returned.
\<close>

datatype mmap_call = Mmap vm_area int | Munmap

fun mmap_run ::
  "nat \<Rightarrow> u64 \<Rightarrow> th260_cdev \<times> nat \<Rightarrow> mmap_call list \<Rightarrow> (errno + unit) list \<times> th260_cdev \<times> nat" where
  "mmap_run pshift res_start (pcard, active) [] = ([], pcard, active)"
| "mmap_run pshift res_start (pcard, active) (Mmap vma remap_ret # cs) =
     (case th260_mmap pshift res_start remap_ret pcard vma of
        (Inl e, pcard', vma') \<Rightarrow>
          (case mmap_run pshift res_start (pcard', active) cs of
             (rs, st) \<Rightarrow> (Inl e # rs, st))
      | (Inr u, pcard', vma') \<Rightarrow>
          (case mmap_run pshift res_start (pcard', Suc active) cs of
             (rs, st) \<Rightarrow> (Inr u # rs, st)))"
| "mmap_run pshift res_start (pcard, active) (Munmap # cs) =
     (if active = 0 then mmap_run pshift res_start (pcard, active) cs
      else mmap_run pshift res_start (th260_vma_close pcard, active - 1) cs)"

text \<open>
  The mapping invariant: either no mapping is active and the busy flag is clear, or
  exactly one is active and the flag is set.
\<close>

definition mapping_inv :: "th260_cdev \<times> nat \<Rightarrow> bool" where
  "mapping_inv st = (case st of (pcard, active) \<Rightarrow>
      (active = 0 \<and> busy pcard = 0) \<or> (active = 1 \<and> busy pcard \<noteq> 0))"

section \<open>Character device: ioctl\<close>

text \<open>
  The command numbers come from \<open>th260ioctl.h\<close>, which is not part of the source
  at hand; the three commands are constructors and every other number is \<open>IOCTL_OTHER\<close>.
\<close>

datatype ioctl_cmd = IOCTL_GET_VERSION | IOCTL_GET_SERIAL | IOCTL_GET_BAROFFS | IOCTL_OTHER u32

datatype user_out = Out32 u32 | Out64 u64

definition DRVVERSION :: u32 where
  "DRVVERSION = push_bit 24 1 + push_bit 16 0 + push_bit 8 0 + 0"

text \<open>
  \<open>th260_ioctl\<close>: the error, or what was copied to the caller. \<open>access_ok\<close> and
  \<open>copied\<close> are the results of \<open>access_ok\<close> and of \<open>copy_to_user\<close> (success).
\<close>

definition th260_ioctl :: "th260_cdev \<Rightarrow> ioctl_cmd \<Rightarrow> bool \<Rightarrow> bool \<Rightarrow> errno + user_out" where
  "th260_ioctl pcard cmd access_ok copied =
     (case cmd of
        IOCTL_GET_VERSION \<Rightarrow>
          if \<not> access_ok then Inl EFAULT
          else if \<not> copied then Inl EACCES else Inr (Out32 DRVVERSION)
      | IOCTL_GET_SERIAL \<Rightarrow>
          if \<not> access_ok then Inl EFAULT
          else if \<not> copied then Inl EACCES else Inr (Out64 (serial pcard))
      | IOCTL_GET_BAROFFS \<Rightarrow>
          if \<not> access_ok then Inl EFAULT
          else if \<not> copied then Inl EACCES else Inr (Out32 (bar0offset pcard))
      | IOCTL_OTHER n \<Rightarrow> Inl EINVAL)"

section \<open>The serial number union\<close>

text \<open>
  \<^verbatim>\<open>union { uint64_t allbits; uint32_t dwords[2]; char bytes[8]; } serialreg;\<close>
  The union is its eight bytes. The driver runs on little-endian machines, where
  byte \<open>i\<close> of a word holds bits \<open>8i .. 8i+7\<close>; that layout is written out here.
\<close>

type_synonym u8 = "8 word"

definition bytes_of_dword :: "u32 \<Rightarrow> u8 list" where
  "bytes_of_dword w = [ucast w, ucast (drop_bit 8 w), ucast (drop_bit 16 w), ucast (drop_bit 24 w)]"

fun allbits :: "u8 list \<Rightarrow> u64" where
  "allbits [] = 0"
| "allbits (b # bs) = ucast b OR push_bit 8 (allbits bs)"

text \<open>
  \<^verbatim>\<open>serialreg.dwords[0] = ioread32(..); serialreg.dwords[1] = ioread32(.. + 4);
  serialreg.bytes[7] = 0; serial = serialreg.allbits;\<close>
\<close>

definition read_serial :: "u32 \<Rightarrow> u32 \<Rightarrow> u64" where
  "read_serial dw0 dw1 = allbits ((bytes_of_dword dw0 @ bytes_of_dword dw1)[7 := 0])"


section \<open>Device table and lifecycle\<close>

text \<open>
  The driver's global state: the table \<open>th260_cdev[MAX_DEVICES]\<close> (only the
  indices below \<open>MAX_DEVICES\<close> are ever used) and, for each PCI device, what
  \<open>pci_get_drvdata\<close> returns: the index of the table entry it points to, or \<open>NULL\<close>.
\<close>

record driver =
  table :: "nat \<Rightarrow> th260_cdev"
  drvdata :: "nat \<Rightarrow> nat option"

definition th260_cdev_init :: "nat \<Rightarrow> th260_cdev" where
  "th260_cdev_init i =
     \<lparr>minor = i, busy = 0, pci_dev = None, cdev = None, bar0base = None, bar0offset = 0,
      serial = 0, maxtlpsize = 0, dmabuf = None, dmabuf_order = 0, irq_received = 0,
      dmacount = 0, bytes_done = 0\<rparr>"

definition driver_init :: driver where
  "driver_init = \<lparr>table = th260_cdev_init, drvdata = (\<lambda>pdev. None)\<rparr>"

fun cdev_add_loop :: "nat \<Rightarrow> (nat \<Rightarrow> th260_cdev) \<Rightarrow> nat list \<Rightarrow> int \<times> (nat \<Rightarrow> th260_cdev)" where
  "cdev_add_loop pdev tbl [] = (- 1, tbl)"
| "cdev_add_loop pdev tbl (i # rest) =
     (if pci_dev (tbl i) = None
      then (int (minor (tbl i)), tbl(i := (tbl i)\<lparr>pci_dev := Some pdev\<rparr>))
      else cdev_add_loop pdev tbl rest)"

definition th260_cdev_add :: "nat \<Rightarrow> (nat \<Rightarrow> th260_cdev) \<Rightarrow> int \<times> (nat \<Rightarrow> th260_cdev)" where
  "th260_cdev_add pdev tbl = cdev_add_loop pdev tbl [0..<MAX_DEVICES]"

definition th260_cdev_del :: "nat \<Rightarrow> (nat \<Rightarrow> th260_cdev) \<Rightarrow> (nat \<Rightarrow> th260_cdev)" where
  "th260_cdev_del pdev tbl =
     fold (\<lambda>i t. if pci_dev (t i) = Some pdev then t(i := (t i)\<lparr>pci_dev := None\<rparr>) else t)
       [0..<MAX_DEVICES] tbl"

definition th260_reset :: "th260_cdev \<Rightarrow> kevent list" where
  "th260_reset pcard =
     [IoWrite32 0x800080 DCSR_OFFSET, IoWrite32 1 DCR_OFFSET, IoWrite32 0 DCR_OFFSET]"

text \<open>
  What the platform answers during \<open>th260_probe\<close>: return codes, the pointers handed
  out, and the three register reads. \<open>get_free_pages ord\<close> is the result of
  \<open>__get_free_pages(GFP_KERNEL|GFP_DMA, ord)\<close>.
\<close>

record probe_env =
  cdev_alloc_ret :: nat
  cdev_add_ret :: int
  pci_enable_ret :: int
  request_region_ret :: int
  bar0_is_mem :: bool
  ioremap_ret :: "nat option"
  serial_lo :: u32
  serial_hi :: u32
  dltrsstat :: u32
  get_free_pages :: "nat \<Rightarrow> u64 option"
  dma_set_mask_ret :: int
  dma_set_coherent_mask_ret :: int
  request_irq_ret :: int

type_synonym probe_result = "(errno + unit) \<times> driver \<times> kevent list"

definition upd_slot :: "nat \<Rightarrow> (th260_cdev \<Rightarrow> th260_cdev) \<Rightarrow> driver \<Rightarrow> driver" where
  "upd_slot i f drv = drv\<lparr>table := (table drv)(i := f (table drv i))\<rparr>"

text \<open>The label \<open>error:\<close> of \<open>th260_probe\<close>.\<close>

definition probe_error :: "nat \<Rightarrow> driver \<Rightarrow> kevent list \<Rightarrow> probe_result" where
  "probe_error pdev drv evs =
     (Inl ENODEV, drv\<lparr>drvdata := (drvdata drv)(pdev := None)\<rparr>,
      evs @ [SetDrvdata pdev None, PciDisableDevice pdev])"

text \<open>
  \<open>get_order(512*1024)\<close>: the least order whose \<open>2^order\<close> pages hold 512 KiB,
  with pages of \<open>2^pshift\<close> bytes (\<open>get_order\<close> is a kernel function).
\<close>

definition get_order_512k :: "nat \<Rightarrow> nat" where
  "get_order_512k pshift = 19 - pshift"

text \<open>
  The allocation loop \<^verbatim>\<open>for(order = get_order(512*1024); order >= 0; order--)\<close>:
  the final \<open>dmabuf_order\<close>, the final \<open>dmabuf\<close> and the calls made.
\<close>

fun dma_alloc :: "(nat \<Rightarrow> u64 option) \<Rightarrow> nat \<Rightarrow> nat \<times> u64 option \<times> kevent list" where
  "dma_alloc alloc 0 = (0, alloc 0, [GetFreePages 0])"
| "dma_alloc alloc (Suc n) =
     (case alloc (Suc n) of
        Some p \<Rightarrow> (Suc n, Some p, [GetFreePages (Suc n)])
      | None \<Rightarrow> (case dma_alloc alloc n of (ord, buf, evs) \<Rightarrow> (ord, buf, GetFreePages (Suc n) # evs)))"

text \<open>
  \<open>th260_probe\<close> from the check of \<open>maxtlpsize\<close> on: the card's entry \<open>mnr\<close> holds
  the register mapping, the serial number and \<open>maxtlpsize\<close>; \<open>cdevp\<close> is the
  registered \<open>cdev\<close> and \<open>evs\<close> what has been done so far.
\<close>

definition th260_probe_tail ::
  "nat \<Rightarrow> probe_env \<Rightarrow> nat \<Rightarrow> nat \<Rightarrow> nat \<Rightarrow> driver \<Rightarrow> kevent list \<Rightarrow> probe_result" where
  "th260_probe_tail pshift env pdev mnr cdevp drv evs =
     (if maxtlpsize (table drv mnr) < 32 \<or> maxtlpsize (table drv mnr) > 4096
      then probe_error pdev drv (evs @ [CdevDel cdevp])
      else
        let evs1 = evs @ th260_reset (table drv mnr);
            (ord, buf, aevs) = dma_alloc (get_free_pages env) (get_order_512k pshift);
            drv1 = upd_slot mnr (\<lambda>c. c\<lparr>dmabuf_order := ord, dmabuf := buf\<rparr>) drv;
            evs2 = evs1 @ aevs
        in if buf = None then probe_error pdev drv1 (evs2 @ [CdevDel cdevp])
           else
             let evs3 = evs2 @ [PciSetMaster pdev, DmaSetMask pdev] in
             if dma_set_mask_ret env \<noteq> 0 \<or> dma_set_coherent_mask_ret env \<noteq> 0
             then probe_error pdev drv1
                    (evs3 @ [IoUnmap (bar0base (table drv1 mnr)), CdevDel cdevp])
             else
               let evs4 = evs3 @ [RequestIrq pdev] in
               if request_irq_ret env \<noteq> 0
               then probe_error pdev drv1
                      (evs4 @ [IoUnmap (bar0base (table drv1 mnr)), CdevDel cdevp])
               else (Inr (), drv1, evs4 @ [DeviceCreate mnr]))"

text \<open>\<^verbatim>\<open>maxtlpsize = 32<<((dltrsstat>>8)&7);\<close> with \<open>reg\<close> the value read into \<open>dltrsstat\<close>.\<close>

definition decode_maxtlpsize :: "u32 \<Rightarrow> u32" where
  "decode_maxtlpsize reg = push_bit (unat (drop_bit 8 reg AND 7)) 32"

text \<open>\<open>th260_probe\<close>, up to the point where \<open>maxtlpsize\<close> is stored.\<close>

definition th260_probe :: "nat \<Rightarrow> probe_env \<Rightarrow> nat \<Rightarrow> driver \<Rightarrow> probe_result" where
  "th260_probe pshift env pdev drv =
     (case th260_cdev_add pdev (table drv) of (ret, tbl) \<Rightarrow>
        if ret < 0 then probe_error pdev (drv\<lparr>table := tbl\<rparr>) []
        else
          let mnr = nat ret;
              cdevp = cdev_alloc_ret env;
              drv1 = drv\<lparr>table := tbl\<rparr>;
              evs1 = [CdevAdd cdevp]
          in if cdev_add_ret env < 0 then probe_error pdev drv1 evs1
             else
               let drv2 = (upd_slot mnr (\<lambda>c. c\<lparr>cdev := Some cdevp\<rparr>) drv1)
                            \<lparr>drvdata := (drvdata drv1)(pdev := Some mnr)\<rparr>;
                   evs2 = evs1 @ [SetDrvdata pdev (Some mnr), PciEnableDevice pdev]
               in if pci_enable_ret env < 0 then probe_error pdev drv2 (evs2 @ [CdevDel cdevp])
                  else
                    let evs3 = evs2 @ [PciRequestRegion pdev] in
                    if request_region_ret env \<noteq> 0
                    then probe_error pdev drv2 (evs3 @ [CdevDel cdevp])
                    else if \<not> bar0_is_mem env
                    then probe_error pdev drv2 (evs3 @ [CdevDel cdevp])
                    else
                      let drv3 = upd_slot mnr (\<lambda>c. c\<lparr>bar0base := ioremap_ret env\<rparr>) drv2;
                          evs4 = evs3 @ [IoRemap]
                      in if ioremap_ret env = None
                         then probe_error pdev drv3 (evs4 @ [CdevDel cdevp])
                         else
                           let drv4 = upd_slot mnr
                                 (\<lambda>c. c\<lparr>serial := read_serial (serial_lo env) (serial_hi env),
                                         maxtlpsize := decode_maxtlpsize (dltrsstat env)\<rparr>)
                                 drv3
                           in th260_probe_tail pshift env pdev mnr cdevp drv4 evs4)"

text \<open>\<open>th260_remove\<close>: the new state and the teardown calls made.\<close>

definition th260_remove :: "nat \<Rightarrow> driver \<Rightarrow> driver \<times> kevent list" where
  "th260_remove pdev drv =
     (case drvdata drv pdev of
        None \<Rightarrow> (drv, [])
      | Some i \<Rightarrow>
          let pcard = table drv i in
          if pci_dev pcard = None then (drv, [])
          else
            (drv\<lparr>table := th260_cdev_del pdev (table drv)\<rparr>,
             (case cdev pcard of None \<Rightarrow> [] | Some c \<Rightarrow> [CdevDel c]) @
             [DeviceDestroy (minor pcard)] @
             th260_reset pcard @
             [FreeIrq pdev, IoUnmap (bar0base pcard), PciReleaseRegion pdev] @
             (if dmabuf pcard \<noteq> None then [FreePages (dmabuf pcard) (dmabuf_order pcard)] else [])))"


text \<open>
  The serial number invariant: the most significant byte of every stored serial
  number is zero.
\<close>

definition serial_inv :: "driver \<Rightarrow> bool" where
  "serial_inv drv = (\<forall>i. drop_bit 56 (serial (table drv i)) = 0)"

section \<open>Concrete cards and platforms\<close>

text \<open>
  Cards with the largest TLP size and a transfer pending: one of 4096 bytes, one of 4100
  bytes (1025 dwords, an odd number).
\<close>

definition card_4096 :: th260_cdev where
  "card_4096 = (th260_cdev_init 0)\<lparr>maxtlpsize := 4096, dmacount := 4096\<rparr>"

definition card_4100 :: th260_cdev where
  "card_4100 = (th260_cdev_init 0)\<lparr>maxtlpsize := 4096, dmacount := 4100\<rparr>"

text \<open>
  An attached card with a 512 KiB buffer (order 7 with 4 KiB pages) and nothing pending,
  and three observations of the wait in \<open>th260_read\<close>.
\<close>

definition card_ready :: th260_cdev where
  "card_ready = (th260_cdev_init 0)\<lparr>maxtlpsize := 128, dmabuf := Some 0x100000, dmabuf_order := 7\<rparr>"

definition obs_timeout :: wait_obs where
  "obs_timeout = \<lparr>outcome = WTimeout, sigpending = False, copy_ok = True\<rparr>"

definition obs_signal :: wait_obs where
  "obs_signal = \<lparr>outcome = WSignalled, sigpending = True, copy_ok = True\<rparr>"

definition obs_done :: wait_obs where
  "obs_done = \<lparr>outcome = WCompleted, sigpending = False, copy_ok = True\<rparr>"

text \<open>
  A card with an active mapping, a request for the 64 KiB register window and one for
  128 KiB.
\<close>

definition card_busy :: th260_cdev where
  "card_busy = card_ready\<lparr>busy := 1\<rparr>"

definition vma_bar :: vm_area where
  "vma_bar = \<lparr>vm_start = 0x7f0000000000, vm_end = 0x7f0000010000, vm_pgoff = 0, vm_ops = False\<rparr>"

definition vma_big :: vm_area where
  "vma_big = \<lparr>vm_start = 0x7f0000000000, vm_end = 0x7f0000020000, vm_pgoff = 0, vm_ops = False\<rparr>"

text \<open>
  Platforms for \<open>th260_probe\<close>: one where every step succeeds (the DMA buffer is
  granted from order 5 down), one where no DMA buffer is granted at any order, and one
  where only \<open>request_irq\<close> fails. \<open>driver_attached\<close> is the driver after the first
  platform attached PCI device 1. The last two platforms are the first with the
  transfer-capability register reading 8192 and 8.
\<close>

definition env_good :: probe_env where
  "env_good = \<lparr>cdev_alloc_ret = 7, cdev_add_ret = 0, pci_enable_ret = 0, request_region_ret = 0,
     bar0_is_mem = True, ioremap_ret = Some 9, serial_lo = 0x33323130, serial_hi = 0x37363534,
     dltrsstat = 0x200, get_free_pages = (\<lambda>ord. if ord \<le> 5 then Some 0x100000 else None),
     dma_set_mask_ret = 0, dma_set_coherent_mask_ret = 0, request_irq_ret = 0\<rparr>"

definition env_nomem :: probe_env where
  "env_nomem = env_good\<lparr>get_free_pages := (\<lambda>ord. None)\<rparr>"

definition env_noirq :: probe_env where
  "env_noirq = env_good\<lparr>request_irq_ret := - 16\<rparr>"

definition driver_attached :: driver where
  "driver_attached = fst (snd (th260_probe 12 env_good 1 driver_init))"

definition env_reg8192 :: probe_env where
  "env_reg8192 = env_good\<lparr>dltrsstat := 8192\<rparr>"

definition env_reg8 :: probe_env where
  "env_reg8 = env_good\<lparr>dltrsstat := 8\<rparr>"

section \<open>Verified properties\<close>

declare tlp_loop.simps [simp del] halving_spec.simps [simp del]

subsection \<open>The TLP search\<close>

lemma unat_drop_bit1: "unat (drop_bit 1 (w::u32)) = unat w div 2"
  by (simp add: drop_bit_eq_div unat_div)

lemma tlp_loop_stop:
  "\<not> (rest \<noteq> 0 \<and> tlpsize > 2) \<Longrightarrow> tlp_loop ndwords tlpsize tlpcount rest = (tlpsize, tlpcount)"
  by (subst tlp_loop.simps) auto

lemma tlp_loop_step:
  "rest \<noteq> 0 \<and> tlpsize > 2 \<Longrightarrow>
   tlp_loop ndwords tlpsize tlpcount rest =
   tlp_loop ndwords (drop_bit 1 tlpsize)
     (ndwords div drop_bit 1 tlpsize) (ndwords mod drop_bit 1 tlpsize)"
  by (subst tlp_loop.simps) simp

lemma tlp_loop_refines:
  "tlpsize \<noteq> 0 \<Longrightarrow> tlpcount = ndwords div tlpsize \<Longrightarrow> rest = ndwords mod tlpsize \<Longrightarrow>
   halving_spec (unat ndwords) (unat tlpsize) =
     (unat (fst (tlp_loop ndwords tlpsize tlpcount rest)),
      unat (snd (tlp_loop ndwords tlpsize tlpcount rest)))"
proof (induction ndwords tlpsize tlpcount rest rule: tlp_loop.induct)
  case (1 ndwords tlpsize tlpcount rest)
  show ?case
  proof (cases "rest \<noteq> 0 \<and> tlpsize > 2")
    case True
    then have gt: "2 < unat tlpsize"
      by (simp add: word_less_nat_alt)
    have nz: "drop_bit 1 tlpsize \<noteq> 0"
    proof
      assume "drop_bit 1 tlpsize = 0"
      then have "unat (drop_bit 1 tlpsize) = 0" by simp
      then have "unat tlpsize div 2 = 0" by (simp only: unat_drop_bit1)
      with gt show False by simp
    qed
    have restnz: "unat ndwords mod unat tlpsize \<noteq> 0"
      using True "1.prems"(3) by (metis unat_mod unat_eq_zero)
    have "halving_spec (unat ndwords) (unat tlpsize) =
          halving_spec (unat ndwords) (unat tlpsize div 2)"
      using gt restnz by (subst halving_spec.simps) simp
    also have "\<dots> = halving_spec (unat ndwords) (unat (drop_bit 1 tlpsize))"
      by (simp only: unat_drop_bit1)
    also have "\<dots> = (unat (fst (tlp_loop ndwords (drop_bit 1 tlpsize)
                         (ndwords div drop_bit 1 tlpsize) (ndwords mod drop_bit 1 tlpsize))),
                     unat (snd (tlp_loop ndwords (drop_bit 1 tlpsize)
                         (ndwords div drop_bit 1 tlpsize) (ndwords mod drop_bit 1 tlpsize))))"
      using "1.IH" [OF True nz refl refl] .
    finally show ?thesis
      by (simp only: tlp_loop_step [OF True])
  next
    case False
    have ur: "unat rest = unat ndwords mod unat tlpsize"
      using "1.prems"(3) by (simp only: unat_mod)
    have "unat rest = 0 \<or> \<not> 2 < unat tlpsize"
      using False by (auto simp: word_less_nat_alt)
    then have "unat ndwords mod unat tlpsize = 0 \<or> \<not> 2 < unat tlpsize"
      by (simp only: ur)
    then have "halving_spec (unat ndwords) (unat tlpsize) =
               (unat tlpsize, unat ndwords div unat tlpsize)"
      by (subst halving_spec.simps) auto
    then show ?thesis
      using "1.prems"(2) by (simp add: tlp_loop_stop [OF False] unat_div)
  qed
qed

lemma halving_spec_count:
  "halving_spec dwords tlp = (t, c) \<Longrightarrow> c = dwords div t"
proof (induction dwords tlp rule: halving_spec.induct)
  case (1 dwords tlp)
  show ?case
  proof (cases "dwords mod tlp \<noteq> 0 \<and> tlp > 2")
    case True
    then have "halving_spec dwords tlp = halving_spec dwords (tlp div 2)"
      by (subst halving_spec.simps) simp
    with "1.prems" "1.IH" [OF True] show ?thesis by simp
  next
    case False
    then have "halving_spec dwords tlp = (tlp, dwords div tlp)"
      by (subst halving_spec.simps) auto
    with "1.prems" show ?thesis by auto
  qed
qed

lemma descriptor_no_wrap:
  fixes t c n :: u32
  assumes "unat c = (unat n div 4) div unat t"
  shows "(n \<noteq> t * 4 * c) = (unat t * 4 * unat c \<noteq> unat n)"
proof -
  have "unat t * unat c \<le> unat n div 4"
    using assms by simp
  then have le: "unat t * 4 * unat c \<le> unat n"
    by simp
  have "unat n < 2 ^ 32"
    using unsigned_less [of n] by simp
  with le have lt: "unat t * 4 * unat c < 2 ^ 32"
    by (rule le_less_trans)
  have "unat (t * 4 * c) = (unat t * 4 * unat c) mod 2 ^ 32"
    by (simp add: unat_word_ariths mod_mult_left_eq mod_mult_right_eq)
  with lt have "unat (t * 4 * c) = unat t * 4 * unat c"
    by simp
  then show ?thesis
    by (simp add: word_unat_eq_iff [of n] eq_commute)
qed

text \<open>
  C1. Whatever byte count is pending (so also for every positive multiple of 4 up to the
  buffer capacity), \<open>th260_dma_start\<close> on a card whose maximum TLP size is nonzero
  pulses the reset and then runs the halving search of the specification from the
  card's maximum TLP size on \<open>dmacount / 4\<close> dwords. When the pair \<open>(tlp, cnt)\<close> found
  satisfies \<open>tlp * 4 * cnt = dmacount\<close> (as numbers, without wrap-around) and
  \<open>cnt \<le> 65535\<close>, it writes the buffer address, \<open>tlp\<close> and \<open>cnt\<close> to the
  source-address, TLP-size and TLP-count registers and then sets the enable bit;
  otherwise it returns having written none of them.
\<close>

theorem th260_dma_start_descriptor:
  assumes "maxtlpsize pcard \<noteq> 0"
    and "halving_spec (unat (dmacount pcard) div 4) (unat (maxtlpsize pcard)) = (tlp, cnt)"
  shows "th260_dma_start pcard =
     Some ([IoWrite32 1 DCR_OFFSET, IoWrite32 0 DCR_OFFSET] @
       (if tlp * 4 * cnt = unat (dmacount pcard) \<and> cnt \<le> 65535
        then [IoWrite32Phys (dmabuf pcard) WRITE_ADDR_OFFSET,
              IoWrite32 (of_nat tlp) WRITE_SIZE_OFFSET,
              IoWrite32 (of_nat cnt) WRITE_COUNT_OFFSET,
              IoWrite32 1 DCSR_OFFSET]
        else []))"
proof -
  define ndwords where "ndwords = dmacount pcard div 4"
  define r where "r = tlp_loop ndwords (maxtlpsize pcard)
     (ndwords div maxtlpsize pcard) (ndwords mod maxtlpsize pcard)"
  have un: "unat ndwords = unat (dmacount pcard) div 4"
    by (simp add: ndwords_def unat_div)
  have "halving_spec (unat ndwords) (unat (maxtlpsize pcard)) = (unat (fst r), unat (snd r))"
    unfolding r_def by (rule tlp_loop_refines [OF assms(1) refl refl])
  with assms(2) have tc: "tlp = unat (fst r)" "cnt = unat (snd r)"
    by (simp_all add: un)
  have "cnt = (unat (dmacount pcard) div 4) div tlp"
    using halving_spec_count [OF assms(2)] .
  then have nw: "(dmacount pcard \<noteq> fst r * 4 * snd r) = (tlp * 4 * cnt \<noteq> unat (dmacount pcard))"
    using descriptor_no_wrap [of "snd r" "dmacount pcard" "fst r"] by (simp add: tc)
  have big: "(snd r > 0xFFFF) = (\<not> cnt \<le> 65535)"
    by (simp add: tc word_less_nat_alt not_le)
  have wt: "of_nat tlp = fst r" "of_nat cnt = snd r"
    by (simp_all add: tc)
  have "th260_dma_start pcard =
     Some ([IoWrite32 1 DCR_OFFSET, IoWrite32 0 DCR_OFFSET] @
       (if snd r > 0xFFFF then []
        else if dmacount pcard \<noteq> fst r * 4 * snd r then []
        else [IoWrite32Phys (dmabuf pcard) WRITE_ADDR_OFFSET,
              IoWrite32 (fst r) WRITE_SIZE_OFFSET,
              IoWrite32 (snd r) WRITE_COUNT_OFFSET,
              IoWrite32 1 DCSR_OFFSET]))"
    using assms(1)
    by (simp add: th260_dma_start_def Let_def case_prod_beta r_def ndwords_def)
  then show ?thesis
    by (simp only: nw big wt) auto
qed


theorem th260_dma_start_descriptor_witness:
  "maxtlpsize card_4096 \<noteq> 0 \<and>
   halving_spec (unat (dmacount card_4096) div 4) (unat (maxtlpsize card_4096)) = (1024, 1) \<and>
   th260_dma_start card_4096 =
     Some [IoWrite32 1 0, IoWrite32 0 0, IoWrite32Phys None 8,
           IoWrite32 1024 12, IoWrite32 1 16, IoWrite32 1 4] \<and>
   maxtlpsize card_4100 \<noteq> 0 \<and>
   halving_spec (unat (dmacount card_4100) div 4) (unat (maxtlpsize card_4100)) = (2, 512) \<and>
   th260_dma_start card_4100 = Some [IoWrite32 1 0, IoWrite32 0 0]"
proof -
  have m: "maxtlpsize card_4096 \<noteq> 0"
    by (simp add: card_4096_def)
  have h: "halving_spec (unat (dmacount card_4096) div 4) (unat (maxtlpsize card_4096)) = (1024, 1)"
    by (simp add: card_4096_def halving_spec.simps)
  have m': "maxtlpsize card_4100 \<noteq> 0"
    by (simp add: card_4100_def)
  have h': "halving_spec (unat (dmacount card_4100) div 4) (unat (maxtlpsize card_4100)) = (2, 512)"
    by (simp add: card_4100_def halving_spec.simps)
  have a: "th260_dma_start card_4096 =
     Some [IoWrite32 1 0, IoWrite32 0 0, IoWrite32Phys None 8,
           IoWrite32 1024 12, IoWrite32 1 16, IoWrite32 1 4]"
    using th260_dma_start_descriptor [OF m h]
    by (simp add: card_4096_def th260_cdev_init_def DCR_OFFSET_def DCSR_OFFSET_def
        WRITE_ADDR_OFFSET_def WRITE_SIZE_OFFSET_def WRITE_COUNT_OFFSET_def)
  have r: "th260_dma_start card_4100 = Some [IoWrite32 1 0, IoWrite32 0 0]"
    using th260_dma_start_descriptor [OF m' h']
    by (simp add: card_4100_def th260_cdev_init_def DCR_OFFSET_def)
  show ?thesis
    using m h a m' h' r by simp
qed

subsection \<open>The interrupt handler's loop\<close>

lemma isr_loop_stuck_aux:
  assumes "isr_loop reads k dcsr evs = Some r"
  shows "\<not> (reads = stuck_dcsr \<and> dcsr = 0x100)"
proof (rule isr_loop.raw_induct
    [where P = "\<lambda>reads k dcsr evs r. \<not> (reads = stuck_dcsr \<and> dcsr = 0x100)", OF _ assms])
  fix f :: "(nat \<Rightarrow> u32) \<Rightarrow> nat \<Rightarrow> u32 \<Rightarrow> kevent list \<Rightarrow> (kevent list \<times> nat) option"
  fix reads k dcsr evs r
  assume IH: "\<And>reads k dcsr evs r. f reads k dcsr evs = Some r \<Longrightarrow>
                \<not> (reads = stuck_dcsr \<and> dcsr = 0x100)"
  assume step: "(if dcsr AND BUSMASTERED_READ_DONE \<noteq> 0
      then f reads (Suc k) (reads k)
             (evs @ [IoWrite32 (dcsr OR 0x00000080) DCSR_OFFSET,
                     IoWrite32 1 DCR_OFFSET, IoWrite32 0 DCR_OFFSET])
      else Some (evs, k)) = Some r"
  show "\<not> (reads = stuck_dcsr \<and> dcsr = 0x100)"
  proof
    assume a: "reads = stuck_dcsr \<and> dcsr = 0x100"
    then have "f reads (Suc k) (reads k)
             (evs @ [IoWrite32 (dcsr OR 0x00000080) DCSR_OFFSET,
                     IoWrite32 1 DCR_OFFSET, IoWrite32 0 DCR_OFFSET]) = Some r"
      using step by (simp add: BUSMASTERED_READ_DONE_def)
    from IH [OF this] a show False
      by (simp add: stuck_dcsr_def)
  qed
qed

lemma isr_loop_stuck: "isr_loop stuck_dcsr k 0x100 evs = None"
proof (cases "isr_loop stuck_dcsr k 0x100 evs")
  case None
  then show ?thesis .
next
  case (Some r)
  from isr_loop_stuck_aux [OF this] show ?thesis by simp
qed

lemma isr_loop_exit:
  "dcsr AND BUSMASTERED_READ_DONE = 0 \<Longrightarrow> isr_loop reads k dcsr evs = Some (evs, k)"
  by (subst isr_loop.simps) simp

lemma isr_loop_iter:
  "dcsr AND BUSMASTERED_READ_DONE \<noteq> 0 \<Longrightarrow>
   isr_loop reads k dcsr evs =
   isr_loop reads (Suc k) (reads k)
     (evs @ [IoWrite32 (dcsr OR 0x00000080) DCSR_OFFSET,
             IoWrite32 1 DCR_OFFSET, IoWrite32 0 DCR_OFFSET])"
  by (subst isr_loop.simps) simp

lemma isr_loop_count:
  "dcsr AND BUSMASTERED_READ_DONE \<noteq> 0 \<Longrightarrow>
   (\<forall>j<n. reads (k + j) AND BUSMASTERED_READ_DONE \<noteq> 0) \<Longrightarrow>
   reads (k + n) AND BUSMASTERED_READ_DONE = 0 \<Longrightarrow>
   \<exists>evs'. isr_loop reads k dcsr evs = Some (evs', k + n + 1) \<and>
          length evs' = length evs + 3 * (n + 1)"
proof (induction n arbitrary: k dcsr evs)
  case 0
  then show ?case
    by (simp add: isr_loop_iter isr_loop_exit)
next
  case (Suc n)
  have nz: "reads k AND BUSMASTERED_READ_DONE \<noteq> 0"
    using Suc.prems(2) [rule_format, of 0] by simp
  have all: "\<forall>j<n. reads (Suc k + j) AND BUSMASTERED_READ_DONE \<noteq> 0"
    using Suc.prems(2) by (metis Suc_less_eq add_Suc_shift)
  have last: "reads (Suc k + n) AND BUSMASTERED_READ_DONE = 0"
    using Suc.prems(3) by simp
  from Suc.IH [OF nz all last, of "evs @ [IoWrite32 (dcsr OR 0x00000080) DCSR_OFFSET,
             IoWrite32 1 DCR_OFFSET, IoWrite32 0 DCR_OFFSET]"]
  obtain evs' where
    "isr_loop reads (Suc k) (reads k) (evs @ [IoWrite32 (dcsr OR 0x00000080) DCSR_OFFSET,
             IoWrite32 1 DCR_OFFSET, IoWrite32 0 DCR_OFFSET]) = Some (evs', Suc k + n + 1)"
    "length evs' = length evs + 3 + 3 * (n + 1)"
    by auto
  then show ?case
    using Suc.prems(1) by (simp add: isr_loop_iter)
qed

text \<open>
  C5, as the claim states it, fails: the loop has no iteration cap. With a status
  register whose completion bit never clears, the handler never leaves the loop.
\<close>

theorem th260_interrupt_stuck_counterexample:
  "th260_interrupt stuck_dcsr (th260_cdev_init 0) = None"
  by (simp add: th260_interrupt_def isr_loop_stuck Let_def)
     (simp add: stuck_dcsr_def BUSMASTERED_READ_DONE_def isr_loop_stuck)

text \<open>
  C5, amended. When the handler's first status read shows the completion bit, the loop
  runs once per read that shows it: if the reads \<open>0 .. n\<close> show the bit and read
  \<open>n + 1\<close> does not, the loop runs exactly \<open>n + 1\<close> times (three register writes each)
  and the handler then does its bookkeeping and reports the interrupt as handled. The
  count is set by the status register alone, for every \<open>n\<close>.
\<close>

theorem th260_interrupt_iterations:
  assumes "\<forall>j\<le>n. reads j AND BUSMASTERED_READ_DONE \<noteq> 0"
    and "reads (Suc n) AND BUSMASTERED_READ_DONE = 0"
  shows "\<exists>evs. th260_interrupt reads pcard = Some (True, th260_interrupt_done pcard, evs) \<and>
               length evs = 3 * (n + 1)"
proof -
  have first: "reads 0 AND BUSMASTERED_READ_DONE \<noteq> 0"
    using assms(1) by simp
  have mid: "\<forall>j<n. reads (1 + j) AND BUSMASTERED_READ_DONE \<noteq> 0"
    using assms(1) by simp
  have last: "reads (1 + n) AND BUSMASTERED_READ_DONE = 0"
    using assms(2) by simp
  from isr_loop_count [OF first mid last, of "[]"]
  obtain evs where "isr_loop reads 1 (reads 0) [] = Some (evs, 1 + n + 1)"
    and "length evs = 3 * (n + 1)"
    by auto
  then show ?thesis
    using first by (simp add: th260_interrupt_def Let_def)
qed

theorem th260_interrupt_iterations_witness:
  "clears_at 3 0 AND BUSMASTERED_READ_DONE \<noteq> 0 \<and>
   clears_at 3 1 AND BUSMASTERED_READ_DONE \<noteq> 0 \<and>
   clears_at 3 2 AND BUSMASTERED_READ_DONE \<noteq> 0 \<and>
   clears_at 3 (Suc 2) AND BUSMASTERED_READ_DONE = 0 \<and>
   (\<exists>evs. th260_interrupt (clears_at 3) (th260_cdev_init 0) =
            Some (True, th260_interrupt_done (th260_cdev_init 0), evs) \<and>
          length evs = 3 * (2 + 1))"
proof -
  have a: "\<forall>j\<le>2. clears_at 3 j AND BUSMASTERED_READ_DONE \<noteq> 0"
    by (simp add: clears_at_def BUSMASTERED_READ_DONE_def)
  have b: "clears_at 3 (Suc 2) AND BUSMASTERED_READ_DONE = 0"
    by (simp add: clears_at_def)
  have c: "clears_at 3 0 AND BUSMASTERED_READ_DONE \<noteq> 0"
    "clears_at 3 1 AND BUSMASTERED_READ_DONE \<noteq> 0"
    "clears_at 3 2 AND BUSMASTERED_READ_DONE \<noteq> 0"
    using a by simp_all
  from th260_interrupt_iterations [OF a b] b c show ?thesis
    by blast
qed

subsection \<open>Reading\<close>

lemma th260_dma_start_Some:
  "maxtlpsize pcard \<noteq> 0 \<Longrightarrow> \<exists>dma. th260_dma_start pcard = Some dma"
  by (simp add: th260_dma_start_def Let_def case_prod_beta)

lemma BUFFER_SIZE_unat:
  "ord + pshift < 64 \<Longrightarrow> unat (BUFFER_SIZE pshift ord) = 2 ^ (ord + pshift)"
  unfolding BUFFER_SIZE_def by (simp only: unsigned_push_bit_eq) (simp add: take_bit_nat_eq_self_iff)

lemma chunk_fits:
  fixes count :: u64
  assumes "ord + pshift \<le> 30" and "count \<le> BUFFER_SIZE pshift ord"
  shows "unat count \<le> 2 ^ 30"
proof -
  have "unat count \<le> unat (BUFFER_SIZE pshift ord)"
    using assms(2) by (simp add: word_le_nat_alt)
  also have "\<dots> = 2 ^ (ord + pshift)"
    using assms(1) by (simp add: BUFFER_SIZE_unat)
  also have "\<dots> \<le> (2::nat) ^ 30"
    using assms(1) by (rule power_increasing) simp
  finally show ?thesis .
qed

lemma ucast_small:
  fixes count :: u64
  assumes "unat count \<le> 2 ^ 30"
  shows "unat (ucast count :: u32) = unat count"
    and "(ucast (ucast count :: u32) :: u64) = count"
    and "sint (ucast count :: u32) = uint count"
proof -
  have lt: "unat count < 2 ^ 32" using assms by simp
  show u: "unat (ucast count :: u32) = unat count"
    using lt by (simp add: unsigned_ucast_eq take_bit_nat_eq_self_iff)
  show "(ucast (ucast count :: u32) :: u64) = count"
  proof -
    have "unat (ucast (ucast count :: u32) :: u64) = take_bit 64 (unat (ucast count :: u32))"
      using unsigned_ucast_eq [where 'a = nat and 'b = 32 and 'c = 64, of "ucast count :: u32"]
      by simp
    also have "\<dots> = unat count"
      using lt by (simp only: u) (simp add: take_bit_nat_eq_self_iff)
    finally show ?thesis
      by (rule word_unat_eq_iff [THEN iffD2])
  qed
  have ui: "uint (ucast count :: u32) = uint count"
    by (metis u uint_nat)
  have "int (unat count) \<le> 2 ^ 30"
    using assms by (metis of_nat_le_iff of_nat_numeral of_nat_power)
  then have "uint count < 2 ^ 31"
    by (simp only: uint_nat) simp
  moreover have "- (2 ^ 31) \<le> uint count"
  proof -
    have "- (2 ^ 31) \<le> (0::int)" by simp
    also have "0 \<le> uint count" by (rule uint_ge_0)
    finally show ?thesis .
  qed
  ultimately have "signed_take_bit 31 (uint count) = uint count"
    by (intro signed_take_bit_int_eq_self)
  then show "sint (ucast count :: u32) = uint count"
    by (simp only: sint_uint ui) simp
qed


lemma ucast_nonzero:
  fixes x :: u64
  assumes "x \<noteq> 0" and "unat x < 2 ^ 32"
  shows "(ucast x :: u32) \<noteq> 0"
proof
  assume "(ucast x :: u32) = 0"
  then have "unat (ucast x :: u32) = 0" by simp
  then have "take_bit 32 (unat x) = 0"
    by (simp add: unsigned_ucast_eq)
  moreover have "take_bit 32 (unat x) = unat x"
    using assms(2) by (simp add: take_bit_nat_eq_self_iff)
  ultimately have "unat x = 0"
    by simp
  then show False
    using assms(1) by (simp add: unat_eq_zero)
qed

lemma chunk_begin_nonzero:
  assumes "count \<noteq> 0" and "dmabuf_order pcard + pshift < 32"
  shows "dmacount (chunk_begin pshift count pcard) \<noteq> 0"
proof -
  let ?B = "BUFFER_SIZE pshift (dmabuf_order pcard)"
  have ub: "unat ?B = 2 ^ (dmabuf_order pcard + pshift)"
    using assms(2) by (simp add: BUFFER_SIZE_unat)
  have "(2::nat) ^ (dmabuf_order pcard + pshift) < 2 ^ 32"
    using assms(2) by (simp only: power_strict_increasing_iff)
  then have blt: "unat ?B < 2 ^ 32"
    by (simp only: ub)
  have bnz: "?B \<noteq> 0"
    using ub by (metis unat_eq_zero power_not_zero zero_neq_numeral)
  have "min count ?B \<le> ?B" by simp
  then have "unat (min count ?B) \<le> unat ?B"
    by (simp only: word_le_nat_alt)
  then have "unat (min count ?B) < 2 ^ 32"
    using blt by (rule le_less_trans)
  moreover have "min count ?B \<noteq> 0"
    using assms(1) bnz by (simp add: min_def)
  ultimately have "(ucast (min count ?B) :: u32) \<noteq> 0"
    by (intro ucast_nonzero)
  then show ?thesis
    by (simp add: chunk_begin_def)
qed

lemma read_loop_timeout:
  assumes "maxtlpsize pcard \<noteq> 0" and "outcome w = WTimeout"
  shows "\<exists>pcard' evs'. read_loop pshift pcard count tot evs (w # ws) = Some (Inl EINTR, pcard', evs')"
proof -
  obtain dma where "th260_dma_start (pcard\<lparr>irq_received := 0\<rparr>) = Some dma"
    using th260_dma_start_Some [of "pcard\<lparr>irq_received := 0\<rparr>"] assms(1) by auto
  then show ?thesis
    using assms(2) by (simp add: Let_def)
qed

lemma read_loop_signal_no_progress:
  assumes "maxtlpsize pcard \<noteq> 0" and "outcome w = WSignalled" and "sigpending w"
    and "bytes_done pcard = 0"
  shows "\<exists>pcard' evs'. read_loop pshift pcard count 0 evs (w # ws) = Some (Inl EINTR, pcard', evs')"
proof -
  obtain dma where "th260_dma_start (pcard\<lparr>irq_received := 0\<rparr>) = Some dma"
    using th260_dma_start_Some [of "pcard\<lparr>irq_received := 0\<rparr>"] assms(1) by auto
  then show ?thesis
    using assms(2,3,4) by (simp add: Let_def)
qed

lemma chunk_begin_simps:
  "bytes_done (chunk_begin pshift count pcard) = 0"
  "maxtlpsize (chunk_begin pshift count pcard) = maxtlpsize pcard"
  "dmabuf_order (chunk_begin pshift count pcard) = dmabuf_order pcard"
  "chunk_begin pshift count (pcard\<lparr>bytes_done := b\<rparr>) = chunk_begin pshift count pcard"
  by (simp_all add: chunk_begin_def)

lemma th260_read_first_wait:
  assumes "count \<noteq> 0" and "maxtlpsize pcard \<noteq> 0" and "dmabuf_order pcard + pshift < 32"
  shows "outcome w = WTimeout \<Longrightarrow>
            \<exists>pcard' evs. th260_read pshift pcard False True count (w # ws) =
                Some (Inl EINTR, pcard', evs)"
    and "outcome w = WSignalled \<Longrightarrow> sigpending w \<Longrightarrow>
            \<exists>pcard' evs. th260_read pshift pcard False True count (w # ws) =
                Some (Inl EINTR, pcard', evs)"
proof -
  let ?c = "chunk_begin pshift count pcard"
  have nz: "dmacount ?c \<noteq> 0"
    using assms(1,3) by (rule chunk_begin_nonzero)
  have rd: "th260_read pshift pcard False True count (w # ws) = read_loop pshift ?c count 0 [] (w # ws)"
    using assms(1) nz by (simp add: th260_read_def Let_def)
  have m: "maxtlpsize ?c \<noteq> 0"
    using assms(2) by (simp add: chunk_begin_simps)
  show "outcome w = WTimeout \<Longrightarrow>
            \<exists>pcard' evs. th260_read pshift pcard False True count (w # ws) =
                Some (Inl EINTR, pcard', evs)"
    using read_loop_timeout [OF m, of w pshift count 0 "[]" ws] by (simp only: rd)
  show "outcome w = WSignalled \<Longrightarrow> sigpending w \<Longrightarrow>
            \<exists>pcard' evs. th260_read pshift pcard False True count (w # ws) =
                Some (Inl EINTR, pcard', evs)"
    using read_loop_signal_no_progress [OF m, of w pshift count "[]" ws]
    by (simp only: rd chunk_begin_simps)
qed

lemma card_ready_facts:
  "(4096::u64) \<noteq> 0" "maxtlpsize card_ready \<noteq> 0" "dmabuf_order card_ready + 12 < 32"
  "outcome obs_timeout = WTimeout" "outcome obs_signal = WSignalled" "sigpending obs_signal"
  "outcome obs_done = WCompleted" "copy_ok obs_done"
  by (simp_all add: card_ready_def th260_cdev_init_def obs_timeout_def obs_signal_def obs_done_def)

lemma read_loop_timeout_any:
  assumes "maxtlpsize pcard \<noteq> 0" and "dmabuf_order pcard + pshift < 32"
    and "read_loop pshift pcard count tot evs pre = None"
    and "outcome wt = WTimeout"
  shows "\<exists>pcard' evs'. read_loop pshift pcard count tot evs (pre @ wt # ws) =
           Some (Inl EINTR, pcard', evs')"
  using assms
proof (induction pre arbitrary: pcard count tot evs)
  case Nil
  then show ?case
    using read_loop_timeout [of pcard wt pshift count tot evs ws] by simp
next
  case (Cons w pre)
  let ?p1 = "pcard\<lparr>irq_received := 0\<rparr>"
  obtain dma where dma: "th260_dma_start ?p1 = Some dma"
    using th260_dma_start_Some [of ?p1] Cons.prems(1) by auto
  have ih: "read_loop pshift p c t e pre = None \<Longrightarrow>
        \<exists>pcard' evs'. read_loop pshift p c t e (pre @ wt # ws) = Some (Inl EINTR, pcard', evs')"
    if "maxtlpsize p = maxtlpsize pcard" "dmabuf_order p = dmabuf_order pcard" for p c t e
    using Cons.IH [of p c t e] that Cons.prems(1,2,4) by simp
  have nz: "dmacount (chunk_begin pshift c p) \<noteq> 0"
    if "c \<noteq> 0" "dmabuf_order p = dmabuf_order pcard" for c p
    using chunk_begin_nonzero [of c p pshift] that Cons.prems(2) by simp
  show ?case
  proof (cases "outcome w")
    case WTimeout
    then show ?thesis
      using Cons.prems(3) dma by (simp add: Let_def)
  next
    case WCompleted
    let ?p2 = "th260_interrupt_done ?p1"
    have f: "maxtlpsize ?p2 = maxtlpsize pcard" "dmabuf_order ?p2 = dmabuf_order pcard"
      "irq_received ?p2 = 1"
      by (simp_all add: th260_interrupt_done_def)
    let ?c' = "count - ucast (bytes_done ?p2)"
    let ?p3 = "chunk_begin pshift ?c' ?p2"
    have f3: "maxtlpsize ?p3 = maxtlpsize pcard" "dmabuf_order ?p3 = dmabuf_order pcard"
      by (simp_all add: chunk_begin_simps f)
    from Cons.prems(3) dma WCompleted f
    have pos: "0 < ?c'"
      by (auto simp: Let_def split: if_splits)
    then have "?c' \<noteq> 0" by auto
    then have nz3: "dmacount ?p3 \<noteq> 0"
      using nz [of ?c' ?p2] f by simp
    from Cons.prems(3) dma WCompleted f nz3
    have rec: "read_loop pshift ?p3 ?c' (tot + bytes_done ?p2)
        (evs @ dma @ (if bytes_done ?p2 \<noteq> 0 then [CopyToUser (bytes_done ?p2)] else [])) pre = None"
      by (auto simp: Let_def split: if_splits)
    from ih [OF f3 rec] obtain pcard' evs' where
      "read_loop pshift ?p3 ?c' (tot + bytes_done ?p2)
        (evs @ dma @ (if bytes_done ?p2 \<noteq> 0 then [CopyToUser (bytes_done ?p2)] else []))
        (pre @ wt # ws) = Some (Inl EINTR, pcard', evs')"
      by blast
    then show ?thesis
      using Cons.prems(3) dma WCompleted f pos nz3
      by (auto simp: Let_def split: if_splits)
  next
    case WSignalled
    have f: "maxtlpsize ?p1 = maxtlpsize pcard" "dmabuf_order ?p1 = dmabuf_order pcard"
      "irq_received ?p1 = 0"
      by simp_all
    let ?p3 = "chunk_begin pshift count ?p1"
    have f3: "maxtlpsize ?p3 = maxtlpsize pcard" "dmabuf_order ?p3 = dmabuf_order pcard"
      by (simp_all add: chunk_begin_simps)
    let ?e2 = "evs @ dma @ (if bytes_done ?p1 \<noteq> 0 then [CopyToUser (bytes_done ?p1)] else [])"
    show ?thesis
    proof (cases "dmacount ?p1 \<noteq> 0")
      case True
      from Cons.prems(3) dma WSignalled True
      have rec: "read_loop pshift ?p1 count tot ?e2 pre = None"
        by (auto simp: Let_def split: if_splits)
      from ih [OF f(1,2) rec] obtain pcard' evs' where
        "read_loop pshift ?p1 count tot ?e2 (pre @ wt # ws) = Some (Inl EINTR, pcard', evs')"
        by blast
      then show ?thesis
        using Cons.prems(3) dma WSignalled True
        by (auto simp: Let_def split: if_splits)
    next
      case False
      from Cons.prems(3) dma WSignalled False
      have pos: "0 < count"
        by (auto simp: Let_def split: if_splits)
      then have "count \<noteq> 0" by auto
      then have nz3: "dmacount ?p3 \<noteq> 0"
        using nz [of count ?p1] by simp
      from Cons.prems(3) dma WSignalled False nz3
      have rec: "read_loop pshift ?p3 count tot ?e2 pre = None"
        by (auto simp: Let_def split: if_splits)
      from ih [OF f3 rec] obtain pcard' evs' where
        "read_loop pshift ?p3 count tot ?e2 (pre @ wt # ws) = Some (Inl EINTR, pcard', evs')"
        by blast
      then show ?thesis
        using Cons.prems(3) dma WSignalled False pos nz3
        by (auto simp: Let_def split: if_splits)
    qed
  qed
qed

lemma th260_read_timeout_any:
  assumes "count \<noteq> 0" and "maxtlpsize pcard \<noteq> 0" and "dmabuf_order pcard + pshift < 32"
    and "th260_read pshift pcard False True count pre = None"
    and "outcome wt = WTimeout"
  shows "\<exists>pcard' evs. th260_read pshift pcard False True count (pre @ wt # ws) =
           Some (Inl EINTR, pcard', evs)"
proof -
  let ?c = "chunk_begin pshift count pcard"
  have nz: "dmacount ?c \<noteq> 0"
    using assms(1,3) by (rule chunk_begin_nonzero)
  have rd: "th260_read pshift pcard False True count l = read_loop pshift ?c count 0 [] l" for l
    using assms(1) nz by (simp add: th260_read_def Let_def)
  have m: "maxtlpsize ?c \<noteq> 0" and ord: "dmabuf_order ?c + pshift < 32"
    using assms(2,3) by (simp_all add: chunk_begin_simps)
  have "read_loop pshift ?c count 0 [] pre = None"
    using assms(4) by (simp only: rd)
  from read_loop_timeout_any [OF m ord this assms(5), of ws] show ?thesis
    by (simp only: rd)
qed

lemma copied_bytes_append: "copied_bytes (a @ b) = copied_bytes a + copied_bytes b"
  by (induction a rule: copied_bytes.induct) simp_all

lemma th260_dma_start_irq:
  "th260_dma_start (pcard\<lparr>irq_received := x\<rparr>) = th260_dma_start pcard"
  by (simp add: th260_dma_start_def Let_def case_prod_beta)

lemma th260_dma_start_no_copy:
  "th260_dma_start pcard = Some dma \<Longrightarrow> copied_bytes dma = 0"
  by (auto simp: th260_dma_start_def Let_def case_prod_beta split: if_splits)

lemma th260_read_first_wait_exact:
  assumes "count \<noteq> 0" and "maxtlpsize pcard \<noteq> 0" and "dmabuf_order pcard + pshift < 32"
  shows "\<exists>dma. th260_dma_start (chunk_begin pshift count pcard) = Some dma \<and>
      (outcome w = WTimeout \<longrightarrow>
         th260_read pshift pcard False True count (w # ws) =
           Some (Inl EINTR, (chunk_begin pshift count pcard)\<lparr>irq_received := 0\<rparr>, dma)) \<and>
      (outcome w = WSignalled \<and> sigpending w \<longrightarrow>
         th260_read pshift pcard False True count (w # ws) =
           Some (Inl EINTR, (chunk_begin pshift count pcard)\<lparr>irq_received := 0\<rparr>, dma))"
proof -
  let ?c = "chunk_begin pshift count pcard"
  have nz: "dmacount ?c \<noteq> 0"
    using assms(1,3) by (rule chunk_begin_nonzero)
  have rd: "th260_read pshift pcard False True count (w # ws) = read_loop pshift ?c count 0 [] (w # ws)"
    using assms(1) nz by (simp add: th260_read_def Let_def)
  have m: "maxtlpsize ?c \<noteq> 0"
    using assms(2) by (simp add: chunk_begin_simps)
  obtain dma where dma: "th260_dma_start ?c = Some dma"
    using th260_dma_start_Some [OF m] by blast
  have b: "bytes_done ?c = 0"
    by (simp add: chunk_begin_simps)
  have "outcome w = WTimeout \<longrightarrow>
         read_loop pshift ?c count 0 [] (w # ws) = Some (Inl EINTR, ?c\<lparr>irq_received := 0\<rparr>, dma)"
    using dma by (simp add: Let_def th260_dma_start_irq)
  moreover have "outcome w = WSignalled \<and> sigpending w \<longrightarrow>
         read_loop pshift ?c count 0 [] (w # ws) = Some (Inl EINTR, ?c\<lparr>irq_received := 0\<rparr>, dma)"
    using dma b by (simp add: Let_def th260_dma_start_irq)
  ultimately show ?thesis
    using dma by (simp only: rd) blast
qed

lemma dma_start_eval:
  "th260_dma_start (chunk_begin 12 4096 card_ready) =
     Some [IoWrite32 1 0, IoWrite32 0 0, IoWrite32Phys (Some 0x100000) 8,
           IoWrite32 128 12, IoWrite32 8 16, IoWrite32 1 4]"
  by (simp add: th260_dma_start_def chunk_begin_def BUFFER_SIZE_def card_ready_def
      th260_cdev_init_def tlp_loop.simps Let_def DCR_OFFSET_def DCSR_OFFSET_def
      WRITE_ADDR_OFFSET_def WRITE_SIZE_OFFSET_def WRITE_COUNT_OFFSET_def)

lemma read_two_chunks_waiting:
  "th260_read 12 card_ready False True 528384 [obs_done] = None"
  by (simp add: th260_read_def th260_dma_start_def chunk_begin_def BUFFER_SIZE_def card_ready_def
      th260_cdev_init_def tlp_loop.simps Let_def obs_done_def th260_interrupt_done_def)

text \<open>
  C2, as the claim states it, fails: a read whose wait times out returns \<open>EINTR\<close>,
  not a timeout error of its own, and that is the very error a read returns when a
  signal arrives before any byte was transferred. This is so at the first wait and at
  the wait of a later chunk alike.
\<close>

theorem th260_read_timeout_counterexample:
  "map_option fst (th260_read 12 card_ready False True 4096 [obs_timeout]) = Some (Inl EINTR) \<and>
   map_option fst (th260_read 12 card_ready False True 4096 [obs_signal]) = Some (Inl EINTR) \<and>
   map_option fst (th260_read 12 card_ready False True 4096 [obs_timeout]) \<noteq> Some (Inl ETIMEDOUT) \<and>
   map_option fst (th260_read 12 card_ready False True 528384 [obs_done, obs_timeout]) =
     Some (Inl EINTR)"
proof -
  obtain c1 e1 where "th260_read 12 card_ready False True 4096 [obs_timeout] = Some (Inl EINTR, c1, e1)"
    using th260_read_first_wait(1) [OF card_ready_facts(1,2,3,4)] by blast
  moreover
  obtain c2 e2 where "th260_read 12 card_ready False True 4096 [obs_signal] = Some (Inl EINTR, c2, e2)"
    using th260_read_first_wait(2) [OF card_ready_facts(1,2,3,5,6)] by blast
  moreover
  have "(528384::u64) \<noteq> 0" by simp
  from th260_read_timeout_any [OF this card_ready_facts(2,3) read_two_chunks_waiting
      card_ready_facts(4), of "[]"]
  obtain c3 e3 where
    "th260_read 12 card_ready False True 528384 [obs_done, obs_timeout] = Some (Inl EINTR, c3, e3)"
    by auto
  ultimately show ?thesis
    by simp
qed

text \<open>
  C2, amended. For every read call in which the completion signal does not arrive
  within the bounded wait, read fails with \<open>EINTR\<close>: whatever was observed before
  (\<open>pre\<close>, after which the call is still waiting, so also when earlier chunks have
  completed), a timeout of the next wait makes the call return \<open>EINTR\<close>. This is the
  same error that reports a signal arriving before any byte was transferred: at the
  first wait the two cases return the same error, leave the same card state and have
  made the same register writes, so they are not told apart. (Nonzero count, blocking
  mode, writable buffer, a card with a nonzero maximum TLP size and a buffer below
  4 GiB.)
\<close>

theorem th260_read_timeout_eintr:
  assumes "count \<noteq> 0" and "maxtlpsize pcard \<noteq> 0" and "dmabuf_order pcard + pshift < 32"
    and "th260_read pshift pcard False True count pre = None"
    and "outcome wt = WTimeout" and "outcome wsig = WSignalled" and "sigpending wsig"
  shows "(\<exists>pcard' evs. th260_read pshift pcard False True count (pre @ wt # ws) =
            Some (Inl EINTR, pcard', evs)) \<and>
         (\<exists>dma. th260_dma_start (chunk_begin pshift count pcard) = Some dma \<and>
            th260_read pshift pcard False True count (wt # ws) =
              Some (Inl EINTR, (chunk_begin pshift count pcard)\<lparr>irq_received := 0\<rparr>, dma) \<and>
            th260_read pshift pcard False True count (wsig # ws') =
              Some (Inl EINTR, (chunk_begin pshift count pcard)\<lparr>irq_received := 0\<rparr>, dma))"
proof -
  obtain dma where d1: "th260_dma_start (chunk_begin pshift count pcard) = Some dma"
    and t1: "th260_read pshift pcard False True count (wt # ws) =
              Some (Inl EINTR, (chunk_begin pshift count pcard)\<lparr>irq_received := 0\<rparr>, dma)"
    using th260_read_first_wait_exact [OF assms(1,2,3), of wt ws] assms(5) by blast
  obtain dma' where d2: "th260_dma_start (chunk_begin pshift count pcard) = Some dma'"
    and t2: "th260_read pshift pcard False True count (wsig # ws') =
              Some (Inl EINTR, (chunk_begin pshift count pcard)\<lparr>irq_received := 0\<rparr>, dma')"
    using th260_read_first_wait_exact [OF assms(1,2,3), of wsig ws'] assms(6,7) by blast
  have "dma' = dma" using d1 d2 by simp
  with d1 t1 t2 th260_read_timeout_any [OF assms(1,2,3,4,5), of ws] show ?thesis
    by blast
qed

theorem th260_read_timeout_eintr_witness:
  "(528384::u64) \<noteq> 0 \<and> maxtlpsize card_ready \<noteq> 0 \<and> dmabuf_order card_ready + 12 < 32 \<and>
   th260_read 12 card_ready False True 528384 [obs_done] = None \<and>
   outcome obs_timeout = WTimeout \<and> outcome obs_signal = WSignalled \<and> sigpending obs_signal \<and>
   (\<exists>pcard' evs. th260_read 12 card_ready False True 528384 [obs_done, obs_timeout] =
      Some (Inl EINTR, pcard', evs)) \<and>
   (\<exists>dma. th260_dma_start (chunk_begin 12 528384 card_ready) = Some dma \<and>
      th260_read 12 card_ready False True 528384 [obs_timeout] =
        Some (Inl EINTR, (chunk_begin 12 528384 card_ready)\<lparr>irq_received := 0\<rparr>, dma) \<and>
      th260_read 12 card_ready False True 528384 [obs_signal] =
        Some (Inl EINTR, (chunk_begin 12 528384 card_ready)\<lparr>irq_received := 0\<rparr>, dma))"
proof -
  have c: "(528384::u64) \<noteq> 0" by simp
  show ?thesis
    using th260_read_timeout_eintr [OF c card_ready_facts(2,3) read_two_chunks_waiting
        card_ready_facts(4,5,6), of "[]" "[]"]
      c card_ready_facts read_two_chunks_waiting
    by simp
qed

text \<open>
  C9. A read with the non-blocking flag set and a nonzero count returns \<open>EFAULT\<close>
  (not \<open>EAGAIN\<close>) at once: whatever the buffer check would say, the card is
  unchanged and no register is written, so no transfer is started.
\<close>

theorem th260_read_nonblock:
  "count \<noteq> 0 \<Longrightarrow>
   th260_read pshift pcard True access_ok count ws = Some (Inl EFAULT, pcard, []) \<and> EFAULT \<noteq> EAGAIN"
  by (simp add: th260_read_def)


theorem th260_read_nonblock_witness:
  "(4096::u64) \<noteq> 0 \<and>
   th260_read 12 card_ready True False 4096 [obs_done] = Some (Inl EFAULT, card_ready, []) \<and>
   EFAULT \<noteq> EAGAIN"
  using th260_read_nonblock [of 4096 12 card_ready False "[obs_done]"]
  by simp

lemma read_loop_completed_step:
  assumes "th260_dma_start pcard = Some dma"
    and "outcome w = WCompleted" "copy_ok w" "bytes_done pcard = 0" "dmacount pcard \<noteq> 0"
  shows "\<not> sigpending w \<Longrightarrow> read_loop pshift pcard count tot evs (w # ws) =
     (let p2 = pcard\<lparr>bytes_done := dmacount pcard, dmacount := 0, irq_received := 1\<rparr>;
          evs2 = evs @ dma @ [CopyToUser (dmacount pcard)];
          tot' = tot + dmacount pcard;
          count' = count - ucast (dmacount pcard)
      in if count' > 0
         then (let p3 = chunk_begin pshift count' p2
               in if dmacount p3 = 0 then None else read_loop pshift p3 count' tot' evs2 ws)
         else Some (Inr (sint tot'), p2, evs2))"
    and "sigpending w \<Longrightarrow> tot + dmacount pcard \<noteq> 0 \<Longrightarrow> read_loop pshift pcard count tot evs (w # ws) =
       Some (Inr (sint (tot + dmacount pcard)),
             pcard\<lparr>bytes_done := dmacount pcard, dmacount := 0, irq_received := 1\<rparr>,
             evs @ dma @ [CopyToUser (dmacount pcard)])"
  using assms by (simp_all add: Let_def th260_interrupt_done_def th260_dma_start_irq)


lemma unat_min_word: "unat (min a b) = min (unat a) (unat (b::'a::len word))"
  by (simp add: min_def word_le_nat_alt)

lemma sint_small:
  fixes x :: u32
  assumes "unat x < 2 ^ 31"
  shows "sint x = int (unat x)"
proof -
  have "int (unat x) < 2 ^ 31"
    using assms by (metis of_nat_less_iff of_nat_numeral of_nat_power)
  then have "uint x < 2 ^ 31"
    by (simp only: uint_nat)
  moreover have "- (2 ^ 31) \<le> uint x"
  proof -
    have "- (2 ^ 31) \<le> (0::int)" by simp
    also have "0 \<le> uint x" by (rule uint_ge_0)
    finally show ?thesis .
  qed
  ultimately have "signed_take_bit 31 (uint x) = uint x"
    by (intro signed_take_bit_int_eq_self)
  then have "sint x = uint x"
    by (simp only: sint_uint) simp
  then show ?thesis
    by (simp only: uint_nat)
qed

lemma chunk_size:
  fixes count :: u64
  assumes "ord + pshift \<le> 30" and "count \<noteq> 0"
  defines "B \<equiv> BUFFER_SIZE pshift ord"
  shows "unat (ucast (min count B) :: u32) = min (unat count) (unat B)"
    and "(ucast (ucast (min count B) :: u32) :: u64) = min count B"
    and "(ucast (min count B) :: u32) \<noteq> 0"
    and "unat B = 2 ^ (ord + pshift)" and "unat B \<le> 2 ^ 30" and "0 < unat B"
proof -
  show ub: "unat B = 2 ^ (ord + pshift)"
    using assms(1) by (simp add: B_def BUFFER_SIZE_unat)
  have "(2::nat) ^ (ord + pshift) \<le> 2 ^ 30"
    using assms(1) by (rule power_increasing) simp
  then show b30: "unat B \<le> 2 ^ 30"
    by (simp only: ub)
  show bpos: "0 < unat B"
    by (simp add: ub)
  have "unat (min count B) \<le> unat B"
    by (simp add: unat_min_word)
  then have small: "unat (min count B) \<le> 2 ^ 30"
    using b30 by (rule le_trans)
  show "unat (ucast (min count B) :: u32) = min (unat count) (unat B)"
    using ucast_small(1) [OF small] by (simp add: unat_min_word)
  show "(ucast (ucast (min count B) :: u32) :: u64) = min count B"
    by (rule ucast_small(2) [OF small])
  have "B \<noteq> 0"
    using bpos by (metis unat_0 less_numeral_extra(3))
  then have "min count B \<noteq> 0"
    using assms(2) by (simp add: min_def)
  moreover have "unat (min count B) < 2 ^ 32"
    using small by simp
  ultimately show "(ucast (min count B) :: u32) \<noteq> 0"
    by (rule ucast_nonzero)
qed


lemma read_loop_all_completed:
  assumes m: "maxtlpsize pcard \<noteq> 0"
    and ord: "dmabuf_order pcard + pshift \<le> 30"
    and obs: "\<forall>w\<in>set ws. outcome w = WCompleted \<and> copy_ok w \<and> \<not> sigpending w"
    and b0: "bytes_done pcard = 0"
    and dc: "dmacount pcard = ucast (min count (BUFFER_SIZE pshift (dmabuf_order pcard)))"
    and cnz: "count \<noteq> 0"
    and enough: "unat count \<le> length ws * unat (BUFFER_SIZE pshift (dmabuf_order pcard))"
    and fits: "unat tot + unat count < 2 ^ 31"
  shows "\<exists>pcard' evs'.
      read_loop pshift pcard count tot evs ws = Some (Inr (int (unat tot + unat count)), pcard', evs') \<and>
      copied_bytes evs' = copied_bytes evs + unat count \<and>
      unat (bytes_done pcard') =
        (unat count - 1) mod unat (BUFFER_SIZE pshift (dmabuf_order pcard)) + 1 \<and>
      dmacount pcard' = 0 \<and> irq_received pcard' = 1"
  using assms
proof (induction ws arbitrary: pcard count tot evs)
  case Nil
  then have "unat count = 0" by simp
  then have "count = 0" by (simp add: unat_eq_zero)
  with Nil.prems(6) show ?case by simp
next
  case (Cons w ws)
  define B where "B = BUFFER_SIZE pshift (dmabuf_order pcard)"
  define d where "d = (ucast (min count B) :: u32)"
  note cs = chunk_size [OF Cons.prems(2,6), folded B_def, folded d_def]
  have ud: "unat d = min (unat count) (unat B)" by (rule cs(1))
  have dback: "(ucast d :: u64) = min count B" by (rule cs(2))
  have dnz: "d \<noteq> 0" by (rule cs(3))
  have bpos: "0 < unat B" by (rule cs(6))
  have dcd: "dmacount pcard = d"
    using Cons.prems(5) by (simp add: B_def d_def)
  obtain dma where dma: "th260_dma_start pcard = Some dma"
    using th260_dma_start_Some [OF Cons.prems(1)] by blast
  have w: "outcome w = WCompleted" "copy_ok w" "\<not> sigpending w"
    using Cons.prems(3) by simp_all
  define p2 where "p2 = pcard\<lparr>bytes_done := d, dmacount := 0, irq_received := 1\<rparr>"
  define evs2 where "evs2 = evs @ dma @ [CopyToUser d]"
  define count' where "count' = count - min count B"
  have step: "read_loop pshift pcard count tot evs (w # ws) =
      (if count' > 0
       then (if dmacount (chunk_begin pshift count' p2) = 0 then None
             else read_loop pshift (chunk_begin pshift count' p2) count' (tot + d) evs2 ws)
       else Some (Inr (sint (tot + d)), p2, evs2))"
    using read_loop_completed_step(1) [OF dma w(1,2) Cons.prems(4) _ w(3), of pshift count tot evs ws]
      dnz
    by (simp add: dcd Let_def p2_def evs2_def count'_def dback)
  have cp2: "copied_bytes evs2 = copied_bytes evs + unat d"
    using th260_dma_start_no_copy [OF dma] by (simp add: evs2_def copied_bytes_append)
  have utd: "unat (tot + d) = unat tot + unat d"
  proof -
    have "unat tot + unat d \<le> unat tot + unat count"
      by (simp add: ud)
    also have "\<dots> < 2 ^ 31" by (rule Cons.prems(8))
    also have "(2::nat) ^ 31 < 2 ^ LENGTH(32)" by simp
    finally show ?thesis
      by (simp only: unat_add_lem [THEN iffD1])
  qed
  show ?case
  proof (cases "count \<le> B")
    case True
    then have mn: "min count B = count" by (simp add: min_def)
    have c0: "\<not> count' > 0" by (simp add: count'_def mn)
    have udc: "unat d = unat count"
      using ud True by (simp add: word_le_nat_alt)
    have "unat (tot + d) < 2 ^ 31"
      using Cons.prems(8) by (simp add: utd udc)
    then have sr: "sint (tot + d) = int (unat tot + unat count)"
      using sint_small [of "tot + d"] by (simp add: utd udc)
    have "unat count \<noteq> 0"
      using Cons.prems(6) by (simp add: unat_eq_zero)
    then have c1: "1 \<le> unat count"
      by simp
    have "unat count - 1 < unat B"
      using True c1 by (simp add: word_le_nat_alt)
    then have last: "(unat count - 1) mod unat B + 1 = unat count"
      using c1 by simp
    show ?thesis
      using c0 sr cp2 udc last
      by (subst step) (simp add: p2_def B_def)
  next
    case False
    then have gt: "B < count" by simp
    then have mn: "min count B = B" by (auto simp: min_def)
    have udb: "unat d = unat B" using ud gt by (simp add: word_less_nat_alt)
    have ugt: "unat B < unat count" using gt by (simp add: word_less_nat_alt)
    have uc': "unat count' = unat count - unat B"
      using gt by (simp add: count'_def mn unat_sub)
    then have c'pos: "count' > 0"
      using ugt by (metis unat_eq_zero word_greater_zero_iff zero_less_diff less_numeral_extra(3))
    then have c'nz: "count' \<noteq> 0" by auto
    let ?p3 = "chunk_begin pshift count' p2"
    have o3: "dmabuf_order ?p3 = dmabuf_order pcard" "maxtlpsize ?p3 = maxtlpsize pcard"
      by (simp_all add: chunk_begin_simps p2_def)
    have B3: "BUFFER_SIZE pshift (dmabuf_order ?p3) = B"
      by (simp add: o3 B_def)
    have nz3: "dmacount ?p3 \<noteq> 0"
      using chunk_begin_nonzero [of count' p2 pshift] c'nz Cons.prems(2) by (simp add: p2_def)
    have rd: "read_loop pshift pcard count tot evs (w # ws) =
        read_loop pshift ?p3 count' (tot + d) evs2 ws"
      using c'pos nz3 by (subst step) simp
    have en: "unat count' \<le> length ws * unat (BUFFER_SIZE pshift (dmabuf_order ?p3))"
      using Cons.prems(7) by (simp add: B3 uc' B_def [symmetric])
    have ft: "unat (tot + d) + unat count' < 2 ^ 31"
      using Cons.prems(8) ugt by (simp add: utd udb uc')
    have ob: "\<forall>w\<in>set ws. outcome w = WCompleted \<and> copy_ok w \<and> \<not> sigpending w"
      using Cons.prems(3) by simp
    have dc3: "dmacount ?p3 = ucast (min count' (BUFFER_SIZE pshift (dmabuf_order ?p3)))"
      by (simp add: chunk_begin_def p2_def)
    have m3: "maxtlpsize ?p3 \<noteq> 0" using Cons.prems(1) by (simp add: o3)
    have or3: "dmabuf_order ?p3 + pshift \<le> 30" using Cons.prems(2) by (simp add: o3)
    have b3: "bytes_done ?p3 = 0" by (simp add: chunk_begin_simps)
    from Cons.IH [OF m3 or3 ob b3 dc3 c'nz en ft, of evs2]
    obtain pcard' evs' where r:
      "read_loop pshift ?p3 count' (tot + d) evs2 ws =
         Some (Inr (int (unat (tot + d) + unat count')), pcard', evs')"
      "copied_bytes evs' = copied_bytes evs2 + unat count'"
      "unat (bytes_done pcard') = (unat count' - 1) mod unat B + 1"
      "dmacount pcard' = 0" "irq_received pcard' = 1"
      by (auto simp: B3)
    have sum: "unat (tot + d) + unat count' = unat tot + unat count"
      using ugt by (simp add: utd udb uc')
    have "unat B \<le> unat count - 1" using ugt by simp
    then have "(unat count - 1 - unat B) mod unat B = (unat count - 1) mod unat B"
      by (simp add: le_mod_geq)
    moreover have "unat count' - 1 = unat count - 1 - unat B"
      by (simp add: uc')
    ultimately have lastc: "(unat count' - 1) mod unat B = (unat count - 1) mod unat B"
      by simp
    have r1: "read_loop pshift ?p3 count' (tot + d) evs2 ws =
         Some (Inr (int (unat tot + unat count)), pcard', evs')"
      using r(1) by (simp only: sum)
    have cpf: "copied_bytes evs' = copied_bytes evs + unat count"
      using r(2) cp2 udb uc' ugt by simp
    have bd: "unat (bytes_done pcard') = (unat count - 1) mod unat B + 1"
      using r(3) lastc by simp
    show ?thesis
      using r1 cpf bd r(4,5) unfolding rd B_def by blast
  qed
qed


text \<open>
  C6. A read with count 0 returns 0 at once, the card untouched. A read of \<open>count\<close>
  bytes, \<open>0 < count \<le> BUFFER_SIZE\<close>, whose completion interrupt arrives for its single
  chunk and whose copy to the caller succeeds, returns exactly \<open>count\<close>: it has made
  the register writes of one \<open>th260_dma_start\<close> for \<open>count\<close> bytes followed by one
  \<open>copy_to_user\<close> of \<open>count\<close> bytes, and leaves \<open>bytes_done = count\<close>,
  \<open>dmacount = 0\<close> and the completion flag set. Each pass of the outer loop starts with
  \<open>bytes_done = 0\<close>: a read of any \<open>count\<close> below 2 GiB whose chunks all complete
  returns exactly \<open>count\<close>, has copied \<open>count\<close> bytes in all and leaves in
  \<open>bytes_done\<close> the size of the last chunk only; and what an earlier call left in
  \<open>bytes_done\<close> has no effect on the next call. (Blocking mode, writable buffer, a
  card with a nonzero maximum TLP size and a buffer of at most 1 GiB.)
\<close>

theorem th260_read_exact:
  "th260_read pshift pcard nonblock access_ok 0 ws = Some (Inr 0, pcard, []) \<and>
   (count \<noteq> 0 \<and> count \<le> BUFFER_SIZE pshift (dmabuf_order pcard) \<and>
    dmabuf_order pcard + pshift \<le> 30 \<and> maxtlpsize pcard \<noteq> 0 \<and>
    outcome w = WCompleted \<and> copy_ok w \<longrightarrow>
      (\<exists>dma. th260_dma_start (chunk_begin pshift count pcard) = Some dma \<and>
         th260_read pshift pcard False True count (w # ws) =
           Some (Inr (uint count),
                 pcard\<lparr>bytes_done := ucast count, dmacount := 0, irq_received := 1\<rparr>,
                 dma @ [CopyToUser (ucast count)]))) \<and>
   (n \<noteq> 0 \<and> unat n < 2 ^ 31 \<and>
    dmabuf_order pcard + pshift \<le> 30 \<and> maxtlpsize pcard \<noteq> 0 \<and>
    (\<forall>x\<in>set wl. outcome x = WCompleted \<and> copy_ok x \<and> \<not> sigpending x) \<and>
    unat n \<le> length wl * unat (BUFFER_SIZE pshift (dmabuf_order pcard)) \<longrightarrow>
      (\<exists>pcard' evs. th260_read pshift pcard False True n wl = Some (Inr (uint n), pcard', evs) \<and>
         copied_bytes evs = unat n \<and>
         unat (bytes_done pcard') =
           (unat n - 1) mod unat (BUFFER_SIZE pshift (dmabuf_order pcard)) + 1)) \<and>
   bytes_done (chunk_begin pshift count pcard) = 0 \<and>
   (count \<noteq> 0 \<longrightarrow>
      th260_read pshift (pcard\<lparr>bytes_done := b\<rparr>) False True count ws' =
      th260_read pshift pcard False True count ws')"
proof (intro conjI impI)
  show "th260_read pshift pcard nonblock access_ok 0 ws = Some (Inr 0, pcard, [])"
    by (simp add: th260_read_def)
next
  assume a: "count \<noteq> 0 \<and> count \<le> BUFFER_SIZE pshift (dmabuf_order pcard) \<and>
    dmabuf_order pcard + pshift \<le> 30 \<and> maxtlpsize pcard \<noteq> 0 \<and>
    outcome w = WCompleted \<and> copy_ok w"
  let ?c = "chunk_begin pshift count pcard"
  let ?d = "ucast count :: u32"
  have small: "unat count \<le> 2 ^ 30"
    using a chunk_fits [of "dmabuf_order pcard" pshift count] by simp
  have lt: "dmabuf_order pcard + pshift < 32"
    using a by simp
  have nz: "dmacount ?c \<noteq> 0"
    using a lt chunk_begin_nonzero [of count pcard pshift] by simp
  have rd: "th260_read pshift pcard False True count (w # ws) = read_loop pshift ?c count 0 [] (w # ws)"
    using a nz by (simp add: th260_read_def Let_def)
  have d: "dmacount ?c = ?d"
    using a by (simp add: chunk_begin_def min_def)
  have m: "maxtlpsize ?c \<noteq> 0"
    using a by (simp add: chunk_begin_simps)
  obtain dma where dma: "th260_dma_start ?c = Some dma"
    using th260_dma_start_Some [OF m] by blast
  have b0: "bytes_done ?c = 0"
    by (simp add: chunk_begin_simps)
  have rt: "count - ucast ?d = 0"
    by (simp add: ucast_small(2) [OF small])
  have si: "sint ?d = uint count"
    by (rule ucast_small(3) [OF small])
  have fin: "?c\<lparr>bytes_done := ?d, dmacount := 0, irq_received := 1\<rparr> =
             pcard\<lparr>bytes_done := ?d, dmacount := 0, irq_received := 1\<rparr>"
    by (simp add: chunk_begin_def)
  have "read_loop pshift ?c count 0 [] (w # ws) =
          Some (Inr (uint count), pcard\<lparr>bytes_done := ?d, dmacount := 0, irq_received := 1\<rparr>,
                dma @ [CopyToUser ?d])"
  proof (cases "sigpending w")
    case True
    have "0 + dmacount ?c \<noteq> 0" using nz by simp
    from read_loop_completed_step(2) [OF dma _ _ b0 nz True this, of pshift count "[]" ws] a
    show ?thesis
      by (simp add: d si fin)
  next
    case False
    from read_loop_completed_step(1) [OF dma _ _ b0 nz False, of pshift count 0 "[]" ws] a
    show ?thesis
      by (simp add: d si fin rt Let_def)
  qed
  then show "\<exists>dma. th260_dma_start ?c = Some dma \<and>
         th260_read pshift pcard False True count (w # ws) =
           Some (Inr (uint count),
                 pcard\<lparr>bytes_done := ucast count, dmacount := 0, irq_received := 1\<rparr>,
                 dma @ [CopyToUser (ucast count)])"
    using dma by (simp only: rd) blast
next
  assume a: "n \<noteq> 0 \<and> unat n < 2 ^ 31 \<and>
    dmabuf_order pcard + pshift \<le> 30 \<and> maxtlpsize pcard \<noteq> 0 \<and>
    (\<forall>x\<in>set wl. outcome x = WCompleted \<and> copy_ok x \<and> \<not> sigpending x) \<and>
    unat n \<le> length wl * unat (BUFFER_SIZE pshift (dmabuf_order pcard))"
  let ?c = "chunk_begin pshift n pcard"
  have lt: "dmabuf_order pcard + pshift < 32"
    using a by simp
  have nz: "dmacount ?c \<noteq> 0"
    using a lt chunk_begin_nonzero [of n pcard pshift] by simp
  have rd: "th260_read pshift pcard False True n wl = read_loop pshift ?c n 0 [] wl"
    using a nz by (simp add: th260_read_def Let_def)
  have m: "maxtlpsize ?c \<noteq> 0" and ord: "dmabuf_order ?c + pshift \<le> 30"
    and b0: "bytes_done ?c = 0"
    using a by (simp_all add: chunk_begin_simps)
  have dc: "dmacount ?c = ucast (min n (BUFFER_SIZE pshift (dmabuf_order ?c)))"
    by (simp add: chunk_begin_def)
  have obs: "\<forall>x\<in>set wl. outcome x = WCompleted \<and> copy_ok x \<and> \<not> sigpending x"
    using a by simp
  have cnz: "n \<noteq> 0" using a by simp
  have en: "unat n \<le> length wl * unat (BUFFER_SIZE pshift (dmabuf_order ?c))"
    using a by (simp add: chunk_begin_simps)
  have ft: "unat (0::u32) + unat n < 2 ^ 31"
    using a by simp
  from read_loop_all_completed [OF m ord obs b0 dc cnz en ft, of "[]"]
  obtain pcard' evs' where r:
    "read_loop pshift ?c n 0 [] wl = Some (Inr (int (unat (0::u32) + unat n)), pcard', evs')"
    "copied_bytes evs' = copied_bytes [] + unat n"
    "unat (bytes_done pcard') = (unat n - 1) mod unat (BUFFER_SIZE pshift (dmabuf_order ?c)) + 1"
    by blast
  have u: "int (unat (0::u32) + unat n) = uint n"
    by simp
  show "\<exists>pcard' evs. th260_read pshift pcard False True n wl = Some (Inr (uint n), pcard', evs) \<and>
         copied_bytes evs = unat n \<and>
         unat (bytes_done pcard') =
           (unat n - 1) mod unat (BUFFER_SIZE pshift (dmabuf_order pcard)) + 1"
    using r by (simp only: rd u chunk_begin_simps) simp
next
  show "bytes_done (chunk_begin pshift count pcard) = 0"
    by (simp add: chunk_begin_simps)
next
  assume "count \<noteq> 0"
  then show "th260_read pshift (pcard\<lparr>bytes_done := b\<rparr>) False True count ws' =
      th260_read pshift pcard False True count ws'"
    by (simp add: th260_read_def chunk_begin_simps)
qed

theorem th260_read_exact_witness:
  "th260_read 12 card_ready False True 0 [] = Some (Inr 0, card_ready, []) \<and>
   (4096::u64) \<noteq> 0 \<and> 4096 \<le> BUFFER_SIZE 12 (dmabuf_order card_ready) \<and>
   dmabuf_order card_ready + 12 \<le> 30 \<and> maxtlpsize card_ready \<noteq> 0 \<and>
   outcome obs_done = WCompleted \<and> copy_ok obs_done \<and>
   th260_read 12 card_ready False True 4096 [obs_done] =
     Some (Inr 4096, card_ready\<lparr>bytes_done := 4096, dmacount := 0, irq_received := 1\<rparr>,
           [IoWrite32 1 0, IoWrite32 0 0, IoWrite32Phys (Some 0x100000) 8,
            IoWrite32 128 12, IoWrite32 8 16, IoWrite32 1 4, CopyToUser 4096]) \<and>
   unat (BUFFER_SIZE 12 (dmabuf_order card_ready)) = 524288 \<and>
   (\<exists>pcard' evs. th260_read 12 card_ready False True 528384 [obs_done, obs_done] =
       Some (Inr 528384, pcard', evs) \<and> copied_bytes evs = 528384 \<and>
       unat (bytes_done pcard') = 4096) \<and>
   th260_read 12 (card_ready\<lparr>bytes_done := 77\<rparr>) False True 4096 [obs_done] =
     th260_read 12 card_ready False True 4096 [obs_done]"
proof -
  have le: "4096 \<le> BUFFER_SIZE 12 (dmabuf_order card_ready)"
    by (simp add: BUFFER_SIZE_def card_ready_def th260_cdev_init_def)
  have ord: "dmabuf_order card_ready + 12 \<le> 30"
    by (simp add: card_ready_def th260_cdev_init_def)
  have ub: "unat (BUFFER_SIZE 12 (dmabuf_order card_ready)) = 524288"
    by (simp add: BUFFER_SIZE_def card_ready_def th260_cdev_init_def)
  have all: "\<forall>x\<in>set [obs_done, obs_done]. outcome x = WCompleted \<and> copy_ok x \<and> \<not> sigpending x"
    by (simp add: obs_done_def)
  note t = th260_read_exact [where pshift = 12 and pcard = card_ready and nonblock = False
        and access_ok = True and ws = "[]" and count = 4096 and w = obs_done and b = 77
        and ws' = "[obs_done]" and n = 528384 and wl = "[obs_done, obs_done]"]
  have one: "th260_read 12 card_ready False True 4096 [obs_done] =
     Some (Inr 4096, card_ready\<lparr>bytes_done := 4096, dmacount := 0, irq_received := 1\<rparr>,
           [IoWrite32 1 0, IoWrite32 0 0, IoWrite32Phys (Some 0x100000) 8,
            IoWrite32 128 12, IoWrite32 8 16, IoWrite32 1 4, CopyToUser 4096])"
    using t le ord card_ready_facts dma_start_eval by auto
  have two: "\<exists>pcard' evs. th260_read 12 card_ready False True 528384 [obs_done, obs_done] =
       Some (Inr 528384, pcard', evs) \<and> copied_bytes evs = 528384 \<and>
       unat (bytes_done pcard') = 4096"
    using t ord card_ready_facts all ub by simp
  show ?thesis
    using t one two le ord ub card_ready_facts by simp
qed

subsection \<open>Mapping the register window\<close>

lemma th260_mmap_busy:
  "busy pcard \<noteq> 0 \<Longrightarrow> th260_mmap pshift res_start remap_ret pcard vma = (Inl EBUSY, pcard, vma)"
  by (simp add: th260_mmap_def)

lemma th260_mmap_too_long:
  "busy pcard = 0 \<Longrightarrow> vm_end vma - vm_start vma > PAGE_ALIGN pshift BAR_0_LEN \<Longrightarrow>
   th260_mmap pshift res_start remap_ret pcard vma = (Inl EINVAL, pcard\<lparr>busy := 0\<rparr>, vma)"
  by (simp add: th260_mmap_def)

lemma th260_mmap_remap_fails:
  "busy pcard = 0 \<Longrightarrow> vm_end vma - vm_start vma \<le> PAGE_ALIGN pshift BAR_0_LEN \<Longrightarrow>
   remap_ret \<noteq> 0 \<Longrightarrow>
   \<exists>pcard' vma'. th260_mmap pshift res_start remap_ret pcard vma = (Inl EAGAIN, pcard', vma') \<and>
      busy pcard' = 0"
  by (simp add: th260_mmap_def Let_def not_less [symmetric])

lemma th260_mmap_ok:
  "busy pcard = 0 \<Longrightarrow> vm_end vma - vm_start vma \<le> PAGE_ALIGN pshift BAR_0_LEN \<Longrightarrow>
   \<exists>pcard' vma'. th260_mmap pshift res_start 0 pcard vma = (Inr (), pcard', vma') \<and>
      busy pcard' = 1 \<and> vm_ops vma'"
  by (simp add: th260_mmap_def Let_def not_less [symmetric])

lemma th260_mmap_inv:
  assumes "mapping_inv (pcard, active)"
    and "th260_mmap pshift res_start remap_ret pcard vma = (r, pcard', vma')"
  shows "(case r of Inl e \<Rightarrow> mapping_inv (pcard', active) | Inr u \<Rightarrow> mapping_inv (pcard', Suc active))"
  using assms
  by (auto simp: th260_mmap_def mapping_inv_def Let_def split: if_splits)

lemma mmap_run_inv:
  "mapping_inv (pcard, active) \<Longrightarrow> mapping_inv (snd (mmap_run pshift res_start (pcard, active) cs))"
proof (induction cs arbitrary: pcard active)
  case Nil
  then show ?case by simp
next
  case (Cons c cs)
  show ?case
  proof (cases c)
    case (Mmap vma remap_ret)
    obtain r pcard' vma' where m: "th260_mmap pshift res_start remap_ret pcard vma = (r, pcard', vma')"
      by (cases "th260_mmap pshift res_start remap_ret pcard vma") auto
    show ?thesis
    proof (cases r)
      case (Inl e)
      then have "mapping_inv (pcard', active)"
        using th260_mmap_inv [OF Cons.prems m] by simp
      from Cons.IH [OF this] show ?thesis
        using Mmap m Inl by (simp add: case_prod_beta)
    next
      case (Inr u)
      then have "mapping_inv (pcard', Suc active)"
        using th260_mmap_inv [OF Cons.prems m] by simp
      from Cons.IH [OF this] show ?thesis
        using Mmap m Inr by (simp add: case_prod_beta)
    qed
  next
    case Munmap
    show ?thesis
    proof (cases "active = 0")
      case True
      with Cons.IH [OF Cons.prems] Munmap show ?thesis by simp
    next
      case False
      then have "mapping_inv (th260_vma_close pcard, active - 1)"
        using Cons.prems by (auto simp: mapping_inv_def th260_vma_close_def)
      from Cons.IH [OF this] Munmap False show ?thesis by simp
    qed
  qed
qed

lemma mmap_three:
  assumes "busy pcard = 0"
    and "vm_end v1 - vm_start v1 \<le> PAGE_ALIGN pshift BAR_0_LEN"
    and "vm_end v3 - vm_start v3 \<le> PAGE_ALIGN pshift BAR_0_LEN"
  shows "fst (mmap_run pshift res_start (pcard, 0) [Mmap v1 0, Mmap v2 r2, Munmap, Mmap v3 0]) =
           [Inr (), Inl EBUSY, Inr ()]"
proof -
  obtain p1 w1 where 1: "th260_mmap pshift res_start 0 pcard v1 = (Inr (), p1, w1)" "busy p1 = 1"
    using th260_mmap_ok [OF assms(1,2)] by blast
  have 2: "th260_mmap pshift res_start r2 p1 v2 = (Inl EBUSY, p1, v2)"
    using 1(2) by (simp add: th260_mmap_busy)
  have "busy (th260_vma_close p1) = 0"
    by (simp add: th260_vma_close_def)
  then obtain p3 w3 where 3: "th260_mmap pshift res_start 0 (th260_vma_close p1) v3 = (Inr (), p3, w3)"
    using th260_mmap_ok [OF _ assms(3)] by blast
  show ?thesis
    by (simp add: 1 2 3)
qed

lemma mmap_inputs:
  "busy card_busy \<noteq> 0" "busy card_ready = 0"
  "vm_end vma_big - vm_start vma_big > PAGE_ALIGN 12 BAR_0_LEN"
  "vm_end vma_bar - vm_start vma_bar \<le> PAGE_ALIGN 12 BAR_0_LEN"
  "(- 12 :: int) \<noteq> 0"
  by (simp_all add: card_busy_def card_ready_def th260_cdev_init_def vma_big_def vma_bar_def
      PAGE_ALIGN_def PAGE_MASK_def BAR_0_LEN_def)

text \<open>
  C4, as the claim states it, fails: with the busy flag clear and a length within the
  window, \<open>th260_mmap\<close> still fails, with \<open>EAGAIN\<close>, when \<open>remap_pfn_range\<close> fails.
\<close>

theorem th260_mmap_remap_counterexample:
  "busy card_ready = 0 \<and>
   \<not> vm_end vma_bar - vm_start vma_bar > PAGE_ALIGN 12 BAR_0_LEN \<and>
   fst (th260_mmap 12 0xFE000000 (- 12) card_ready vma_bar) = Inl EAGAIN"
proof -
  obtain pcard' vma' where
    "th260_mmap 12 0xFE000000 (- 12) card_ready vma_bar = (Inl EAGAIN, pcard', vma')"
    using th260_mmap_remap_fails [OF mmap_inputs(2,4,5)] by blast
  then show ?thesis
    using mmap_inputs(2,4) by (simp add: not_less)
qed

text \<open>
  C4, amended. For every card, \<open>th260_mmap\<close> fails with \<open>EBUSY\<close>, changing nothing,
  whenever the busy flag is already set; with the flag clear it fails with \<open>EINVAL\<close>
  when the requested length exceeds the page-rounded window size and with \<open>EAGAIN\<close>
  when \<open>remap_pfn_range\<close> fails, leaving the flag clear in both cases; otherwise it
  succeeds, sets the flag and installs the close hook, and \<open>th260_vma_close\<close> clears the
  flag. Hence three attempts in sequence (map, a second while the first is active,
  release the first and map again), where the first and third are within the window and
  their remapping succeeds, give success, \<open>EBUSY\<close>, success; and after any sequence of
  mapping calls starting from a free card at most one mapping is active.
\<close>

theorem th260_mmap_exclusive:
  assumes "busy pb \<noteq> 0" and "busy pcard = 0"
    and "vm_end vbig - vm_start vbig > PAGE_ALIGN pshift BAR_0_LEN"
    and "vm_end vma - vm_start vma \<le> PAGE_ALIGN pshift BAR_0_LEN"
    and "vm_end v3 - vm_start v3 \<le> PAGE_ALIGN pshift BAR_0_LEN"
    and "rfail \<noteq> 0"
  shows "th260_mmap pshift res_start r pb v = (Inl EBUSY, pb, v) \<and>
    th260_mmap pshift res_start r pcard vbig = (Inl EINVAL, pcard\<lparr>busy := 0\<rparr>, vbig) \<and>
    (\<exists>pcard' vma'. th260_mmap pshift res_start rfail pcard vma = (Inl EAGAIN, pcard', vma') \<and>
        busy pcard' = 0) \<and>
    (\<exists>pcard' vma'. th260_mmap pshift res_start 0 pcard vma = (Inr (), pcard', vma') \<and>
        busy pcard' = 1 \<and> vm_ops vma') \<and>
    busy (th260_vma_close pb) = 0 \<and>
    fst (mmap_run pshift res_start (pcard, 0) [Mmap vma 0, Mmap v r, Munmap, Mmap v3 0]) =
      [Inr (), Inl EBUSY, Inr ()] \<and>
    mapping_inv (snd (mmap_run pshift res_start (pcard, 0) cs)) \<and>
    snd (snd (mmap_run pshift res_start (pcard, 0) cs)) \<le> 1"
proof -
  have inv0: "mapping_inv (pcard, 0)"
    using assms(2) by (simp add: mapping_inv_def)
  have inv: "mapping_inv (snd (mmap_run pshift res_start (pcard, 0) cs))"
    using inv0 by (rule mmap_run_inv)
  then have le: "snd (snd (mmap_run pshift res_start (pcard, 0) cs)) \<le> 1"
    by (auto simp: mapping_inv_def split: prod.splits)
  show ?thesis
    using th260_mmap_busy [OF assms(1)] th260_mmap_too_long [OF assms(2,3)]
      th260_mmap_remap_fails [OF assms(2,4,6)] th260_mmap_ok [OF assms(2,4)]
      mmap_three [OF assms(2,4,5)] inv le
    by (simp add: th260_vma_close_def)
qed

theorem th260_mmap_exclusive_witness:
  "busy card_busy \<noteq> 0 \<and> busy card_ready = 0 \<and>
   vm_end vma_big - vm_start vma_big > PAGE_ALIGN 12 BAR_0_LEN \<and>
   vm_end vma_bar - vm_start vma_bar \<le> PAGE_ALIGN 12 BAR_0_LEN \<and>
   (- 12 :: int) \<noteq> 0 \<and>
   th260_mmap 12 0xFE000000 0 card_busy vma_bar = (Inl EBUSY, card_busy, vma_bar) \<and>
   fst (th260_mmap 12 0xFE000000 0 card_ready vma_big) = Inl EINVAL \<and>
   fst (th260_mmap 12 0xFE000000 (- 12) card_ready vma_bar) = Inl EAGAIN \<and>
   fst (th260_mmap 12 0xFE000000 0 card_ready vma_bar) = Inr () \<and>
   fst (mmap_run 12 0xFE000000 (card_ready, 0)
          [Mmap vma_bar 0, Mmap vma_bar 0, Munmap, Mmap vma_bar 0]) =
     [Inr (), Inl EBUSY, Inr ()] \<and>
   snd (snd (mmap_run 12 0xFE000000 (card_ready, 0)
          [Mmap vma_bar 0, Mmap vma_bar 0, Munmap, Mmap vma_bar 0])) \<le> 1"
proof -
  note t = th260_mmap_exclusive [OF mmap_inputs(1,2,3,4,4,5),
      where res_start = "0xFE000000" and r = 0 and v = vma_bar
        and cs = "[Mmap vma_bar 0, Mmap vma_bar 0, Munmap, Mmap vma_bar 0]"]
  show ?thesis
    using t mmap_inputs by auto
qed

subsection \<open>Attach and detach\<close>

lemma upt4: "[0..<MAX_DEVICES] = [0, 1, 2, 3]"
  by (simp add: MAX_DEVICES_def upt_rec)

lemma dma_alloc_7_none:
  "dma_alloc (\<lambda>ord. None) 7 = (0, None, [GetFreePages 7, GetFreePages 6, GetFreePages 5,
      GetFreePages 4, GetFreePages 3, GetFreePages 2, GetFreePages 1, GetFreePages 0])"
  by (simp add: eval_nat_numeral)

lemma dma_alloc_7_good:
  "dma_alloc (\<lambda>ord. if ord \<le> 5 then Some 0x100000 else None) 7 =
     (5, Some 0x100000, [GetFreePages 7, GetFreePages 6, GetFreePages 5])"
  by (simp add: eval_nat_numeral)

lemmas probe_eval = th260_probe_def th260_probe_tail_def probe_error_def upd_slot_def
      th260_cdev_add_def upt4 driver_init_def th260_cdev_init_def
      th260_reset_def get_order_512k_def
      DCR_OFFSET_def DCSR_OFFSET_def Let_def

lemma probe_good:
  "fst (th260_probe 12 env_good 1 driver_init) = Inr ()"
  "snd (snd (th260_probe 12 env_good 1 driver_init)) =
      [CdevAdd 7, SetDrvdata 1 (Some 0), PciEnableDevice 1, PciRequestRegion 1, IoRemap,
       IoWrite32 0x800080 4, IoWrite32 1 0, IoWrite32 0 0,
       GetFreePages 7, GetFreePages 6, GetFreePages 5,
       PciSetMaster 1, DmaSetMask 1, RequestIrq 1, DeviceCreate 0]"
  "drvdata driver_attached 1 = Some 0"
  "pci_dev (table driver_attached 0) = Some 1"
  "serial (table driver_attached 0) = 0x0036353433323130"
  "maxtlpsize (table driver_attached 0) = 128"
  "cdev (table driver_attached 0) = Some 7"
  "minor (table driver_attached 0) = 0"
  "bar0base (table driver_attached 0) = Some 9"
  "dmabuf (table driver_attached 0) = Some 0x100000"
  "dmabuf_order (table driver_attached 0) = 5"
  by (simp_all add: driver_attached_def probe_eval env_good_def dma_alloc_7_good
      read_serial_def bytes_of_dword_def decode_maxtlpsize_def)

lemma read_serial_top_byte: "drop_bit 56 (read_serial dw0 dw1) = 0"
  by (rule bit_word_eqI) (auto simp add: read_serial_def bytes_of_dword_def bit_simps)

lemma cdev_add_loop_serial:
  "serial (snd (cdev_add_loop pdev tbl xs) j) = serial (tbl j)"
  by (induction xs) auto

lemma cdev_del_fold:
  "fold (\<lambda>i t. if pci_dev (t i) = Some pdev then t(i := (t i)\<lparr>pci_dev := None\<rparr>) else t) xs tbl j =
     (if j \<in> set xs \<and> pci_dev (tbl j) = Some pdev then (tbl j)\<lparr>pci_dev := None\<rparr> else tbl j)"
  by (induction xs arbitrary: tbl) auto

lemma th260_cdev_del_slot:
  "th260_cdev_del pdev tbl j =
     (if j < MAX_DEVICES \<and> pci_dev (tbl j) = Some pdev then (tbl j)\<lparr>pci_dev := None\<rparr> else tbl j)"
  by (simp add: th260_cdev_del_def cdev_del_fold)

lemma probe_tail_serial:
  "serial (table (fst (snd (th260_probe_tail pshift env pdev mnr cdevp drv evs))) j) =
   serial (table drv j)"
  by (simp add: th260_probe_tail_def probe_error_def upd_slot_def Let_def case_prod_beta)

lemma probe_serial:
  "serial (table (fst (snd (th260_probe pshift env pdev drv))) j) = serial (table drv j) \<or>
   serial (table (fst (snd (th260_probe pshift env pdev drv))) j) =
     read_serial (serial_lo env) (serial_hi env)"
  by (simp add: th260_probe_def probe_error_def upd_slot_def Let_def case_prod_beta
      probe_tail_serial th260_cdev_add_def cdev_add_loop_serial)

lemma remove_serial:
  "serial (table (fst (th260_remove pdev drv)) j) = serial (table drv j)"
  by (simp add: th260_remove_def Let_def th260_cdev_del_slot split: option.splits)

lemma probe_tail_success:
  "fst (th260_probe_tail pshift env pdev mnr cdevp drv evs) = Inr () \<Longrightarrow>
   drvdata (fst (snd (th260_probe_tail pshift env pdev mnr cdevp drv evs))) = drvdata drv \<and>
   pci_dev (table (fst (snd (th260_probe_tail pshift env pdev mnr cdevp drv evs))) j) =
     pci_dev (table drv j)"
  by (simp add: th260_probe_tail_def probe_error_def upd_slot_def Let_def case_prod_beta
      split: if_splits)

lemma cdev_add_loop_claims:
  "0 \<le> fst (cdev_add_loop pdev tbl xs) \<Longrightarrow> (\<forall>i\<in>set xs. minor (tbl i) = i) \<Longrightarrow>
   nat (fst (cdev_add_loop pdev tbl xs)) \<in> set xs \<and>
   pci_dev (snd (cdev_add_loop pdev tbl xs) (nat (fst (cdev_add_loop pdev tbl xs)))) = Some pdev"
  by (induction xs) auto

lemma probe_success_attached:
  assumes ok: "fst (th260_probe pshift env pdev drv) = Inr ()"
    and minors: "\<forall>i<MAX_DEVICES. minor (table drv i) = i"
  shows "\<exists>i<MAX_DEVICES.
           drvdata (fst (snd (th260_probe pshift env pdev drv))) pdev = Some i \<and>
           pci_dev (table (fst (snd (th260_probe pshift env pdev drv))) i) = Some pdev \<and>
           serial (table (fst (snd (th260_probe pshift env pdev drv))) i) =
             read_serial (serial_lo env) (serial_hi env)"
proof -
  define ret where "ret = fst (th260_cdev_add pdev (table drv))"
  define tbl where "tbl = snd (th260_cdev_add pdev (table drv))"
  define mnr where "mnr = nat ret"
  define drv4 where "drv4 =
     upd_slot mnr (\<lambda>c. c\<lparr>serial := read_serial (serial_lo env) (serial_hi env),
                          maxtlpsize := decode_maxtlpsize (dltrsstat env)\<rparr>)
       (upd_slot mnr (\<lambda>c. c\<lparr>bar0base := ioremap_ret env\<rparr>)
          ((upd_slot mnr (\<lambda>c. c\<lparr>cdev := Some (cdev_alloc_ret env)\<rparr>) (drv\<lparr>table := tbl\<rparr>))
             \<lparr>drvdata := (drvdata drv)(pdev := Some mnr)\<rparr>))"
  define evs4 where "evs4 = [CdevAdd (cdev_alloc_ret env), SetDrvdata pdev (Some mnr),
     PciEnableDevice pdev, PciRequestRegion pdev, IoRemap]"
  have pe: "fst (probe_error pdev d e) \<noteq> Inr ()" for d e
    by (simp add: probe_error_def)
  have unfold: "th260_probe pshift env pdev drv =
      th260_probe_tail pshift env pdev mnr (cdev_alloc_ret env) drv4 evs4 \<and> 0 \<le> ret"
    using ok
    by (auto simp add: pe th260_probe_def Let_def case_prod_beta ret_def tbl_def mnr_def drv4_def
        evs4_def split: if_splits)
  then have tail_ok: "fst (th260_probe_tail pshift env pdev mnr (cdev_alloc_ret env) drv4 evs4) = Inr ()"
    using ok by simp
  have "\<forall>i\<in>set [0..<MAX_DEVICES]. minor (table drv i) = i"
    using minors by simp
  with unfold have claim: "mnr \<in> set [0..<MAX_DEVICES] \<and> pci_dev (tbl mnr) = Some pdev"
    using cdev_add_loop_claims [of pdev "table drv" "[0..<MAX_DEVICES]"]
    by (simp add: ret_def tbl_def mnr_def th260_cdev_add_def)
  have d4: "drvdata drv4 pdev = Some mnr" "pci_dev (table drv4 mnr) = Some pdev"
    "serial (table drv4 mnr) = read_serial (serial_lo env) (serial_hi env)"
    using claim by (simp_all add: drv4_def upd_slot_def)
  have "drvdata (fst (snd (th260_probe pshift env pdev drv))) pdev = Some mnr"
    using probe_tail_success [OF tail_ok, of mnr] d4(1) unfold by simp
  moreover have "pci_dev (table (fst (snd (th260_probe pshift env pdev drv))) mnr) = Some pdev"
    using probe_tail_success [OF tail_ok, of mnr] d4(2) unfold by simp
  moreover have "serial (table (fst (snd (th260_probe pshift env pdev drv))) mnr) =
      read_serial (serial_lo env) (serial_hi env)"
    using probe_tail_serial [of pshift env pdev mnr "cdev_alloc_ret env" drv4 evs4 mnr] d4(3) unfold
    by simp
  moreover have "mnr < MAX_DEVICES"
    using claim by simp
  ultimately show ?thesis
    by blast
qed

lemma decode_maxtlpsize_cases:
  "decode_maxtlpsize r \<in> {32, 64, 128, 256, 512, 1024, 2048, 4096}"
proof -
  have "drop_bit 8 r AND 7 \<le> 7"
    by (rule word_and_le1)
  then have "unat (drop_bit 8 r AND 7) \<le> 7"
    by (simp add: word_le_nat_alt)
  then have "unat (drop_bit 8 r AND 7) \<in> {0, 1, 2, 3, 4, 5, 6, 7}"
    by auto
  then show ?thesis
    unfolding decode_maxtlpsize_def by (auto simp: push_bit_eq_mult)
qed

lemma decode_maxtlpsize_range:
  "32 \<le> decode_maxtlpsize r \<and> decode_maxtlpsize r \<le> 4096"
  using decode_maxtlpsize_cases [of r] by auto

text \<open>
  C3: the code does not do what the claim says. On a platform where no DMA buffer is
  granted at any order, \<open>th260_probe\<close> fails with \<open>ENODEV\<close> and neither requests
  the interrupt nor creates the device node, but it does not unmap the register window
  either: its calls end with \<open>cdev_del\<close>, \<open>pci_set_drvdata(NULL)\<close> and
  \<open>pci_disable_device\<close>, the mapping stays in the table entry and the entry stays
  claimed. The failure path of \<open>request_irq\<close>, two steps later, does call \<open>iounmap\<close>.
\<close>

theorem th260_probe_nomem_keeps_mapping:
  "fst (th260_probe 12 env_nomem 1 driver_init) = Inl ENODEV \<and>
   snd (snd (th260_probe 12 env_nomem 1 driver_init)) =
      [CdevAdd 7, SetDrvdata 1 (Some 0), PciEnableDevice 1, PciRequestRegion 1, IoRemap,
       IoWrite32 0x800080 4, IoWrite32 1 0, IoWrite32 0 0,
       GetFreePages 7, GetFreePages 6, GetFreePages 5, GetFreePages 4,
       GetFreePages 3, GetFreePages 2, GetFreePages 1, GetFreePages 0,
       CdevDel 7, SetDrvdata 1 None, PciDisableDevice 1] \<and>
   IoUnmap (Some 9) \<notin> set (snd (snd (th260_probe 12 env_nomem 1 driver_init))) \<and>
   bar0base (table (fst (snd (th260_probe 12 env_nomem 1 driver_init))) 0) = Some 9 \<and>
   pci_dev (table (fst (snd (th260_probe 12 env_nomem 1 driver_init))) 0) = Some 1 \<and>
   snd (snd (th260_probe 12 env_noirq 1 driver_init)) =
      [CdevAdd 7, SetDrvdata 1 (Some 0), PciEnableDevice 1, PciRequestRegion 1, IoRemap,
       IoWrite32 0x800080 4, IoWrite32 1 0, IoWrite32 0 0,
       GetFreePages 7, GetFreePages 6, GetFreePages 5,
       PciSetMaster 1, DmaSetMask 1, RequestIrq 1,
       IoUnmap (Some 9), CdevDel 7, SetDrvdata 1 None, PciDisableDevice 1]"
  by (simp add: probe_eval env_nomem_def env_noirq_def env_good_def dma_alloc_7_none
      dma_alloc_7_good decode_maxtlpsize_def)

lemma decode_guard_false:
  "\<not> (decode_maxtlpsize reg < 32 \<or> decode_maxtlpsize reg > 4096)"
  using decode_maxtlpsize_range [of reg] by (simp add: not_less)

lemma probe_tail_indep:
  assumes "\<not> (maxtlpsize (table drv mnr) < 32 \<or> maxtlpsize (table drv mnr) > 4096)"
    and "\<not> (maxtlpsize (table drv' mnr) < 32 \<or> maxtlpsize (table drv' mnr) > 4096)"
    and "bar0base (table drv mnr) = bar0base (table drv' mnr)"
    and "get_free_pages env' = get_free_pages env" "dma_set_mask_ret env' = dma_set_mask_ret env"
     "dma_set_coherent_mask_ret env' = dma_set_coherent_mask_ret env"
     "request_irq_ret env' = request_irq_ret env"
  shows "fst (th260_probe_tail pshift env pdev mnr cdevp drv evs) =
         fst (th260_probe_tail pshift env' pdev mnr cdevp drv' evs) \<and>
         snd (snd (th260_probe_tail pshift env pdev mnr cdevp drv evs)) =
         snd (snd (th260_probe_tail pshift env' pdev mnr cdevp drv' evs))"
  using assms
  by (simp add: th260_probe_tail_def probe_error_def upd_slot_def Let_def case_prod_beta
      th260_reset_def)

lemma probe_reg_indep:
  "fst (th260_probe pshift (env\<lparr>dltrsstat := reg\<rparr>) pdev drv) = fst (th260_probe pshift env pdev drv) \<and>
   snd (snd (th260_probe pshift (env\<lparr>dltrsstat := reg\<rparr>) pdev drv)) =
   snd (snd (th260_probe pshift env pdev drv))"
proof -
  have t: "fst (th260_probe_tail pshift (env\<lparr>dltrsstat := reg\<rparr>) pdev mnr cdevp
              (upd_slot mnr (\<lambda>c. c\<lparr>serial := s, maxtlpsize := decode_maxtlpsize reg\<rparr>) d) evs) =
           fst (th260_probe_tail pshift env pdev mnr cdevp
              (upd_slot mnr (\<lambda>c. c\<lparr>serial := s, maxtlpsize := decode_maxtlpsize (dltrsstat env)\<rparr>) d) evs) \<and>
           snd (snd (th260_probe_tail pshift (env\<lparr>dltrsstat := reg\<rparr>) pdev mnr cdevp
              (upd_slot mnr (\<lambda>c. c\<lparr>serial := s, maxtlpsize := decode_maxtlpsize reg\<rparr>) d) evs)) =
           snd (snd (th260_probe_tail pshift env pdev mnr cdevp
              (upd_slot mnr (\<lambda>c. c\<lparr>serial := s, maxtlpsize := decode_maxtlpsize (dltrsstat env)\<rparr>) d) evs))"
    for mnr cdevp s d evs
    by (rule probe_tail_indep) (simp_all add: upd_slot_def decode_guard_false)
  show ?thesis
    by (simp add: th260_probe_def Let_def case_prod_beta t)
qed


lemma probe_tail_maxtlpsize:
  "maxtlpsize (table (fst (snd (th260_probe_tail pshift env pdev mnr cdevp drv evs))) j) =
   maxtlpsize (table drv j)"
  by (simp add: th260_probe_tail_def probe_error_def upd_slot_def Let_def case_prod_beta)

lemma probe_success_maxtlpsize:
  assumes ok: "fst (th260_probe pshift env pdev drv) = Inr ()"
    and minors: "\<forall>i<MAX_DEVICES. minor (table drv i) = i"
  shows "\<exists>i<MAX_DEVICES.
           drvdata (fst (snd (th260_probe pshift env pdev drv))) pdev = Some i \<and>
           maxtlpsize (table (fst (snd (th260_probe pshift env pdev drv))) i) =
             decode_maxtlpsize (dltrsstat env)"
proof -
  define ret where "ret = fst (th260_cdev_add pdev (table drv))"
  define tbl where "tbl = snd (th260_cdev_add pdev (table drv))"
  define mnr where "mnr = nat ret"
  define drv4 where "drv4 =
     upd_slot mnr (\<lambda>c. c\<lparr>serial := read_serial (serial_lo env) (serial_hi env),
                          maxtlpsize := decode_maxtlpsize (dltrsstat env)\<rparr>)
       (upd_slot mnr (\<lambda>c. c\<lparr>bar0base := ioremap_ret env\<rparr>)
          ((upd_slot mnr (\<lambda>c. c\<lparr>cdev := Some (cdev_alloc_ret env)\<rparr>) (drv\<lparr>table := tbl\<rparr>))
             \<lparr>drvdata := (drvdata drv)(pdev := Some mnr)\<rparr>))"
  define evs4 where "evs4 = [CdevAdd (cdev_alloc_ret env), SetDrvdata pdev (Some mnr),
     PciEnableDevice pdev, PciRequestRegion pdev, IoRemap]"
  have pe: "fst (probe_error pdev d e) \<noteq> Inr ()" for d e
    by (simp add: probe_error_def)
  have unfold: "th260_probe pshift env pdev drv =
      th260_probe_tail pshift env pdev mnr (cdev_alloc_ret env) drv4 evs4 \<and> 0 \<le> ret"
    using ok
    by (auto simp add: pe th260_probe_def Let_def case_prod_beta ret_def tbl_def mnr_def drv4_def
        evs4_def split: if_splits)
  then have tail_ok: "fst (th260_probe_tail pshift env pdev mnr (cdev_alloc_ret env) drv4 evs4) = Inr ()"
    using ok by simp
  have "\<forall>i\<in>set [0..<MAX_DEVICES]. minor (table drv i) = i"
    using minors by simp
  with unfold have claim: "mnr \<in> set [0..<MAX_DEVICES]"
    using cdev_add_loop_claims [of pdev "table drv" "[0..<MAX_DEVICES]"]
    by (simp add: ret_def tbl_def mnr_def th260_cdev_add_def)
  have d4: "drvdata drv4 pdev = Some mnr"
    "maxtlpsize (table drv4 mnr) = decode_maxtlpsize (dltrsstat env)"
    by (simp_all add: drv4_def upd_slot_def)
  have "drvdata (fst (snd (th260_probe pshift env pdev drv))) pdev = Some mnr"
    using probe_tail_success [OF tail_ok, of mnr] d4(1) unfold by simp
  moreover have "maxtlpsize (table (fst (snd (th260_probe pshift env pdev drv))) mnr) =
      decode_maxtlpsize (dltrsstat env)"
    using probe_tail_maxtlpsize [of pshift env pdev mnr "cdev_alloc_ret env" drv4 evs4 mnr] d4(2) unfold
    by simp
  moreover have "mnr < MAX_DEVICES"
    using claim by simp
  ultimately show ?thesis
    by blast
qed

text \<open>
  C7, as the claim states it, fails: no value of the transfer-capability register makes
  attach fail. With the register reading 8192, and with it reading 8, attach succeeds on
  a platform where the other steps succeed; the stored maximum TLP size is 32 both times
  and the device node is created.
\<close>

theorem th260_probe_reg_counterexample:
  "fst (th260_probe 12 env_reg8192 1 driver_init) = Inr () \<and>
   maxtlpsize (table (fst (snd (th260_probe 12 env_reg8192 1 driver_init))) 0) = 32 \<and>
   fst (th260_probe 12 env_reg8 1 driver_init) = Inr () \<and>
   maxtlpsize (table (fst (snd (th260_probe 12 env_reg8 1 driver_init))) 0) = 32 \<and>
   DeviceCreate 0 \<in> set (snd (snd (th260_probe 12 env_reg8192 1 driver_init))) \<and>
   DeviceCreate 0 \<in> set (snd (snd (th260_probe 12 env_reg8 1 driver_init)))"
  by (simp add: probe_eval env_reg8192_def env_reg8_def env_good_def dma_alloc_7_good
      decode_maxtlpsize_def)

text \<open>
  C7, amended. At attach the maximum TLP size is decoded from the transfer-capability
  register as \<open>32 << ((reg >> 8) & 7)\<close>, which lies in \<open>[32, 4096]\<close> for every
  register value. So the range check that follows never fails attach: the result of
  \<open>th260_probe\<close> and the calls it makes are the same for every value of the register,
  and when attach succeeds the card's entry holds the decoded size.
\<close>

theorem th260_probe_any_capability:
  "32 \<le> decode_maxtlpsize reg \<and> decode_maxtlpsize reg \<le> 4096 \<and>
   fst (th260_probe pshift (env\<lparr>dltrsstat := reg\<rparr>) pdev drv) = fst (th260_probe pshift env pdev drv) \<and>
   snd (snd (th260_probe pshift (env\<lparr>dltrsstat := reg\<rparr>) pdev drv)) =
     snd (snd (th260_probe pshift env pdev drv)) \<and>
   (fst (th260_probe pshift (env\<lparr>dltrsstat := reg\<rparr>) pdev drv) = Inr () \<and>
    (\<forall>i<MAX_DEVICES. minor (table drv i) = i) \<longrightarrow>
      (\<exists>i<MAX_DEVICES.
         drvdata (fst (snd (th260_probe pshift (env\<lparr>dltrsstat := reg\<rparr>) pdev drv))) pdev = Some i \<and>
         maxtlpsize (table (fst (snd (th260_probe pshift (env\<lparr>dltrsstat := reg\<rparr>) pdev drv))) i) =
           decode_maxtlpsize reg))"
  using decode_maxtlpsize_range [of reg]
    probe_reg_indep [where pshift = pshift and env = env and reg = reg and pdev = pdev and drv = drv]
    probe_success_maxtlpsize [of pshift "env\<lparr>dltrsstat := reg\<rparr>" pdev drv]
  by simp

theorem th260_probe_any_capability_witness:
  "fst (th260_probe 12 (env_good\<lparr>dltrsstat := 8192\<rparr>) 1 driver_init) = Inr () \<and>
   fst (th260_probe 12 env_good 1 driver_init) = Inr () \<and>
   snd (snd (th260_probe 12 (env_good\<lparr>dltrsstat := 8192\<rparr>) 1 driver_init)) =
     snd (snd (th260_probe 12 env_good 1 driver_init)) \<and>
   minor (table driver_init 0) = 0 \<and> minor (table driver_init 1) = 1 \<and>
   minor (table driver_init 2) = 2 \<and> minor (table driver_init 3) = 3 \<and>
   (\<exists>i. drvdata (fst (snd (th260_probe 12 (env_good\<lparr>dltrsstat := 8192\<rparr>) 1 driver_init))) 1 = Some i \<and>
        maxtlpsize (table (fst (snd (th260_probe 12 (env_good\<lparr>dltrsstat := 8192\<rparr>) 1 driver_init))) i) =
          decode_maxtlpsize 8192) \<and>
   decode_maxtlpsize 8192 = 32"
proof -
  have m: "\<forall>i<MAX_DEVICES. minor (table driver_init i) = i"
    by (simp add: driver_init_def th260_cdev_init_def)
  have d: "decode_maxtlpsize 8192 = 32"
    by (simp add: decode_maxtlpsize_def)
  note t = th260_probe_any_capability [where reg = 8192 and pshift = 12 and env = env_good
      and pdev = 1 and drv = driver_init]
  have ok: "fst (th260_probe 12 (env_good\<lparr>dltrsstat := 8192\<rparr>) 1 driver_init) = Inr ()"
    using t probe_good(1) by simp
  have "\<exists>i<MAX_DEVICES.
         drvdata (fst (snd (th260_probe 12 (env_good\<lparr>dltrsstat := 8192\<rparr>) 1 driver_init))) 1 = Some i \<and>
         maxtlpsize (table (fst (snd (th260_probe 12 (env_good\<lparr>dltrsstat := 8192\<rparr>) 1 driver_init))) i) =
           decode_maxtlpsize 8192"
    using t ok m by blast
  then show ?thesis
    using t ok probe_good(1) d by (auto simp: driver_init_def th260_cdev_init_def)
qed

text \<open>
  C8. Calling \<open>th260_remove\<close> twice on an attached card tears the hardware down exactly
  once. The first call removes the character device and the device node, resets the
  card, frees the interrupt, unmaps the registers, releases the region, frees the DMA
  buffer and clears the table entry; the second call, finding the entry cleared, makes no
  call and changes nothing.
\<close>

theorem th260_remove_twice:
  assumes "drvdata drv pdev = Some i" and "i < MAX_DEVICES" and "pci_dev (table drv i) = Some pdev"
  shows "snd (th260_remove pdev drv) =
      (case cdev (table drv i) of None \<Rightarrow> [] | Some c \<Rightarrow> [CdevDel c]) @
      [DeviceDestroy (minor (table drv i)),
       IoWrite32 0x800080 DCSR_OFFSET, IoWrite32 1 DCR_OFFSET, IoWrite32 0 DCR_OFFSET,
       FreeIrq pdev, IoUnmap (bar0base (table drv i)), PciReleaseRegion pdev] @
      (if dmabuf (table drv i) \<noteq> None
       then [FreePages (dmabuf (table drv i)) (dmabuf_order (table drv i))] else []) \<and>
    pci_dev (table (fst (th260_remove pdev drv)) i) = None \<and>
    th260_remove pdev (fst (th260_remove pdev drv)) = (fst (th260_remove pdev drv), [])"
proof -
  let ?drv' = "fst (th260_remove pdev drv)"
  have first: "th260_remove pdev drv =
      (drv\<lparr>table := th260_cdev_del pdev (table drv)\<rparr>,
       (case cdev (table drv i) of None \<Rightarrow> [] | Some c \<Rightarrow> [CdevDel c]) @
       [DeviceDestroy (minor (table drv i))] @ th260_reset (table drv i) @
       [FreeIrq pdev, IoUnmap (bar0base (table drv i)), PciReleaseRegion pdev] @
       (if dmabuf (table drv i) \<noteq> None
        then [FreePages (dmabuf (table drv i)) (dmabuf_order (table drv i))] else []))"
    using assms(1,3) by (simp add: th260_remove_def Let_def)
  have cleared: "pci_dev (table ?drv' i) = None"
    using assms(2,3) by (simp add: first th260_cdev_del_slot)
  have dd: "drvdata ?drv' pdev = Some i"
    using assms(1) by (simp add: first)
  have second: "th260_remove pdev ?drv' = (?drv', [])"
    using dd cleared by (simp add: th260_remove_def Let_def)
  show ?thesis
    using cleared second by (simp add: first th260_reset_def)
qed


theorem th260_remove_twice_witness:
  "drvdata driver_attached 1 = Some 0 \<and> 0 < MAX_DEVICES \<and>
   pci_dev (table driver_attached 0) = Some 1 \<and>
   snd (th260_remove 1 driver_attached) =
     [CdevDel 7, DeviceDestroy 0, IoWrite32 0x800080 4, IoWrite32 1 0, IoWrite32 0 0,
      FreeIrq 1, IoUnmap (Some 9), PciReleaseRegion 1, FreePages (Some 0x100000) 5] \<and>
   pci_dev (table (fst (th260_remove 1 driver_attached)) 0) = None \<and>
   th260_remove 1 (fst (th260_remove 1 driver_attached)) = (fst (th260_remove 1 driver_attached), [])"
proof -
  have m: "0 < MAX_DEVICES"
    by (simp add: MAX_DEVICES_def)
  show ?thesis
    using th260_remove_twice [OF probe_good(3) m probe_good(4)] probe_good m
    by (simp add: DCR_OFFSET_def DCSR_OFFSET_def)
qed

text \<open>
  C10. The serial number assembled from the two 32-bit register reads has its most
  significant byte zero for every register contents. So every stored serial number has
  a zero top byte: this holds when the table is initialised and is kept by attach and
  detach, and \<open>IOCTL_GET_SERIAL\<close> hands out exactly the stored value.
\<close>

theorem serial_top_byte_zero:
  "serial_inv driver_init \<and> drop_bit 56 (read_serial dw0 dw1) = 0 \<and>
   (serial_inv drv \<longrightarrow>
      serial_inv (fst (snd (th260_probe pshift env pdev drv))) \<and>
      serial_inv (fst (th260_remove pdev drv)) \<and>
      th260_ioctl (table drv i) IOCTL_GET_SERIAL True True = Inr (Out64 (serial (table drv i))) \<and>
      drop_bit 56 (serial (table drv i)) = 0)"
proof (intro conjI impI)
  show "serial_inv driver_init"
    by (simp add: serial_inv_def driver_init_def th260_cdev_init_def)
next
  show "drop_bit 56 (read_serial dw0 dw1) = 0"
    by (rule read_serial_top_byte)
next
  assume inv: "serial_inv drv"
  show "serial_inv (fst (snd (th260_probe pshift env pdev drv)))"
    unfolding serial_inv_def
  proof
    fix j
    from probe_serial [of pshift env pdev drv j] inv
    show "drop_bit 56 (serial (table (fst (snd (th260_probe pshift env pdev drv))) j)) = 0"
      by (auto simp: serial_inv_def read_serial_top_byte)
  qed
  show "serial_inv (fst (th260_remove pdev drv))"
    using inv by (simp add: serial_inv_def remove_serial)
  show "th260_ioctl (table drv i) IOCTL_GET_SERIAL True True = Inr (Out64 (serial (table drv i)))"
    by (simp add: th260_ioctl_def)
  show "drop_bit 56 (serial (table drv i)) = 0"
    using inv by (simp add: serial_inv_def)
qed


theorem serial_top_byte_zero_witness:
  "serial_inv driver_init \<and> serial_inv driver_attached \<and>
   th260_ioctl (table driver_attached 0) IOCTL_GET_SERIAL True True =
     Inr (Out64 0x0036353433323130) \<and>
   drop_bit 56 (0x0036353433323130 :: u64) = 0"
proof -
  have i: "serial_inv driver_init"
    using serial_top_byte_zero [of 0 0 driver_init 12 env_good 1 0] by simp
  have a: "serial_inv driver_attached"
    using serial_top_byte_zero [of 0 0 driver_init 12 env_good 1 0] i
    by (simp add: driver_attached_def)
  show ?thesis
    using serial_top_byte_zero [of 0 0 driver_attached 12 env_good 1 0] i a probe_good(5)
    by simp
qed

end
